theory Spec2Isabelle
  imports Complex_Main "HOL-Library.Word" "HOL-Library.Log_Nat"
begin

section \<open>The timer abstraction\<close>

text \<open>
  A \<open>time.Duration\<close> is an \<open>int64\<close> count of nanoseconds: a 64-bit word, read
  as two's complement by \<open>sint\<close> and compared by the signed orders.
\<close>

type_synonym Duration = "64 word"

text \<open>
  The \<open>*time.Timer\<close> of Go's library, as far as the interface comment in the source
  describes it: a timer is pending from the moment it is armed, until it either expires
  (sending the time on its channel) or is stopped. \<open>Stop\<close> "returns true if the call
  stops the timer, false if the timer has already expired or been stopped".
\<close>

datatype time_Timer = Pending Duration | Expired | Stopped

definition NewTimer :: "Duration \<Rightarrow> time_Timer" where
  "NewTimer d = Pending d"

definition Reset_timer :: "time_Timer \<Rightarrow> Duration \<Rightarrow> time_Timer" where
  "Reset_timer tm d = Pending d"

fun Stop_timer :: "time_Timer \<Rightarrow> bool \<times> time_Timer" where
  "Stop_timer (Pending d) = (True, Stopped)"
| "Stop_timer Expired = (False, Expired)"
| "Stop_timer Stopped = (False, Stopped)"

text \<open>The step the runtime takes when a pending timer's duration has passed.\<close>

fun expire :: "time_Timer \<Rightarrow> time_Timer" where
  "expire (Pending d) = Expired"
| "expire Expired = Expired"
| "expire Stopped = Stopped"

text \<open>
  \<open>realTimer\<close> wraps a pointer to a \<open>time.Timer\<close>; the pointer is \<open>nil\<close>
  (\<open>None\<close>) until \<open>Start\<close> is called for the first time.
\<close>

record realTimer =
  timer :: "time_Timer option"

definition NewRealTimer :: realTimer where
  "NewRealTimer = \<lparr>timer = None\<rparr>"

text \<open>\<open>C\<close> returns the timer's channel, \<open>nil\<close> before the first \<open>Start\<close>.\<close>

definition C :: "realTimer \<Rightarrow> time_Timer option" where
  "C t = (case timer t of None \<Rightarrow> None | Some tm \<Rightarrow> Some tm)"

definition Start :: "realTimer \<Rightarrow> Duration \<Rightarrow> realTimer" where
  "Start t d =
     (case timer t of
        None \<Rightarrow> t\<lparr>timer := Some (NewTimer d)\<rparr>
      | Some tm \<Rightarrow> t\<lparr>timer := Some (Reset_timer tm d)\<rparr>)"

definition Stop :: "realTimer \<Rightarrow> bool \<times> realTimer" where
  "Stop t =
     (case timer t of
        None \<Rightarrow> (True, t)
      | Some tm \<Rightarrow> (fst (Stop_timer tm), t\<lparr>timer := Some (snd (Stop_timer tm))\<rparr>))"

section \<open>Binary64 floating point\<close>

text \<open>
  Go's \<open>float64\<close> is the binary64 format of IEEE 754: 53 bits of precision, exponents
  from \<open>-1022\<close> to \<open>1023\<close>, subnormal numbers, two infinities and NaN. A finite
  value is kept here as the rational number it denotes. The two zeros are one value:
  \<open>duration\<close> never divides and never reads a sign bit, so it cannot tell them apart.
\<close>

datatype float64 = Finite rat | PInf | NInf | NaN

definition pow2 :: "int \<Rightarrow> rat" where
  "pow2 e = (if 0 \<le> e then 2 ^ nat e else 1 / 2 ^ nat (- e))"

text \<open>The exponent of a positive number: \<open>pow2 (ilog2 x) \<le> x < pow2 (ilog2 x + 1)\<close>.\<close>

definition ilog2 :: "rat \<Rightarrow> int" where
  "ilog2 x =
     (if 1 \<le> x then bitlen \<lfloor>x\<rfloor> - 1
      else let k = bitlen \<lfloor>1 / x\<rfloor> - 1 in if 1 / x = pow2 k then - k else - k - 1)"

text \<open>Rounding a non-negative number to the nearest integer, ties to the even one.\<close>

definition rne :: "rat \<Rightarrow> int" where
  "rne r =
     (let f = \<lfloor>r\<rfloor>; d = r - of_int f
      in if d < 1 / 2 then f else if 1 / 2 < d then f + 1 else if even f then f else f + 1)"

text \<open>
  The rounding every operation ends with: to the nearest representable number, ties to
  even; the spacing of representable numbers around \<open>x\<close> is \<open>pow2 (e - 52)\<close>, with
  \<open>e\<close> no less than \<open>-1022\<close> (subnormals); a result of magnitude \<open>2^1024\<close> or
  more is an infinity.
\<close>

definition round64 :: "rat \<Rightarrow> float64" where
  "round64 x =
     (if x = 0 then Finite 0
      else
        let a = \<bar>x\<bar>;
            e = max (ilog2 a) (- 1022);
            q = pow2 (e - 52);
            y = of_int (rne (a / q)) * q
        in if pow2 1024 \<le> y then (if 0 < x then PInf else NInf)
           else Finite (if 0 < x then y else - y))"

fun fmul :: "float64 \<Rightarrow> float64 \<Rightarrow> float64" where
  "fmul (Finite a) (Finite b) = round64 (a * b)"
| "fmul NaN y = NaN"
| "fmul x NaN = NaN"
| "fmul (Finite a) PInf = (if a = 0 then NaN else if 0 < a then PInf else NInf)"
| "fmul (Finite a) NInf = (if a = 0 then NaN else if 0 < a then NInf else PInf)"
| "fmul PInf (Finite b) = (if b = 0 then NaN else if 0 < b then PInf else NInf)"
| "fmul NInf (Finite b) = (if b = 0 then NaN else if 0 < b then NInf else PInf)"
| "fmul PInf PInf = PInf"
| "fmul PInf NInf = NInf"
| "fmul NInf PInf = NInf"
| "fmul NInf NInf = PInf"

fun fadd :: "float64 \<Rightarrow> float64 \<Rightarrow> float64" where
  "fadd (Finite a) (Finite b) = round64 (a + b)"
| "fadd NaN y = NaN"
| "fadd x NaN = NaN"
| "fadd PInf NInf = NaN"
| "fadd NInf PInf = NaN"
| "fadd PInf y = PInf"
| "fadd NInf y = NInf"
| "fadd x PInf = PInf"
| "fadd x NInf = NInf"

text \<open>The comparisons \<open><\<close>, \<open>>\<close> and \<open>==\<close>: all false when an operand is NaN.\<close>

fun flt :: "float64 \<Rightarrow> float64 \<Rightarrow> bool" where
  "flt NaN y = False"
| "flt x NaN = False"
| "flt (Finite a) (Finite b) = (a < b)"
| "flt (Finite a) PInf = True"
| "flt (Finite a) NInf = False"
| "flt PInf y = False"
| "flt NInf NInf = False"
| "flt NInf y = True"

definition fgt :: "float64 \<Rightarrow> float64 \<Rightarrow> bool" where
  "fgt x y = flt y x"

definition feq :: "float64 \<Rightarrow> float64 \<Rightarrow> bool" where
  "feq x y = (x \<noteq> NaN \<and> x = y)"

text \<open>Conversion of an integer to \<open>float64\<close> rounds to the nearest representable number.\<close>

definition float64_of_int :: "int \<Rightarrow> float64" where
  "float64_of_int i = round64 (of_int i)"

definition float64_of_int64 :: "64 word \<Rightarrow> float64" where
  "float64_of_int64 v = float64_of_int (sint v)"

definition float64_of_uint :: "'w::len word \<Rightarrow> float64" where
  "float64_of_uint v = float64_of_int (uint v)"

text \<open>
  Conversion of a \<open>float64\<close> to \<open>int64\<close> discards the fraction (truncation towards
  zero). When \<open>int64\<close> cannot represent the value (NaN, an infinity, a magnitude too
  large) the conversion still yields a value, which Go leaves to the implementation:
  \<open>cv\<close> stands for what the platform yields there.
\<close>

definition trunc :: "rat \<Rightarrow> int" where
  "trunc r = (if 0 \<le> r then \<lfloor>r\<rfloor> else \<lceil>r\<rceil>)"

definition int64_of_float64 :: "(float64 \<Rightarrow> 64 word) \<Rightarrow> float64 \<Rightarrow> 64 word" where
  "int64_of_float64 cv x =
     (case x of
        Finite r \<Rightarrow>
          if - (2 ^ 63) \<le> trunc r \<and> trunc r < 2 ^ 63 then word_of_int (trunc r)
          else cv x
      | _ \<Rightarrow> cv x)"

text \<open>On amd64 the conversion instruction yields the smallest \<open>int64\<close> in those cases.\<close>

definition amd64 :: "float64 \<Rightarrow> 64 word" where
  "amd64 x = 0x8000000000000000"

subsection \<open>\<open>math.Pow\<close>\<close>

text \<open>
  \<open>math.Frexp\<close> splits a finite non-zero number into a fraction of magnitude in
  \<open>[1/2, 1)\<close> and a power of two; \<open>math.Ldexp\<close> is its inverse, rounding where the
  result is subnormal and overflowing to an infinity.
\<close>

definition Frexp :: "rat \<Rightarrow> rat \<times> int" where
  "Frexp x = (if x = 0 then (0, 0) else (x / pow2 (ilog2 \<bar>x\<bar> + 1), ilog2 \<bar>x\<bar> + 1))"

definition Ldexp :: "float64 \<Rightarrow> int \<Rightarrow> float64" where
  "Ldexp a e = (case a of Finite f \<Rightarrow> round64 (f * pow2 e) | _ \<Rightarrow> a)"

definition isOddInt :: "float64 \<Rightarrow> bool" where
  "isOddInt y =
     (case y of
        Finite r \<Rightarrow> \<bar>r\<bar> < 2 ^ 53 \<and> of_int \<lfloor>r\<rfloor> = r \<and> odd \<lfloor>r\<rfloor>
      | _ \<Rightarrow> False)"

text \<open>
  The loop of \<open>math.Pow\<close> that multiplies \<open>a1 * 2^ae\<close> by \<open>x^i\<close>, squaring
  \<open>x1 * 2^xe\<close> once per bit of \<open>i\<close>; it gives up as soon as the exponent \<open>xe\<close>
  leaves \<open>[-4096, 4096]\<close>, where the result overflows or underflows anyway.
\<close>

function pow_loop :: "int \<Rightarrow> float64 \<Rightarrow> int \<Rightarrow> float64 \<Rightarrow> int \<Rightarrow> float64 \<times> int" where
  "pow_loop i x1 xe a1 ae =
     (if i \<le> 0 then (a1, ae)
      else if xe < - (2 ^ 12) \<or> 2 ^ 12 < xe then (a1, ae + xe)
      else
        let a1' = (if odd i then fmul a1 x1 else a1);
            ae' = (if odd i then ae + xe else ae);
            x2 = fmul x1 x1;
            xe2 = 2 * xe
        in if flt x2 (Finite (1 / 2)) then pow_loop (i div 2) (fadd x2 x2) (xe2 - 1) a1' ae'
           else pow_loop (i div 2) x2 xe2 a1' ae')"
  by pat_completeness auto
termination
  by (relation "measure (\<lambda>(i, x1, xe, a1, ae). nat i)") auto

text \<open>
  \<open>math.Pow x y\<close> (here \<open>Pow_float\<close>), in the order of its cases, for the exponents that \<open>duration\<close>
  passes: \<open>y\<close> is \<open>float64(attempt)\<close>, a finite integer that is not negative. For
  such \<open>y\<close> the fractional part is zero and the integer part is \<open>y\<close> itself. For
  every other exponent (negative, fractional, infinite) the model yields NaN; no
  statement below reaches those.
\<close>

definition Pow_float :: "float64 \<Rightarrow> float64 \<Rightarrow> float64" where
  "Pow_float x y =
     (if feq y (Finite 0) \<or> feq x (Finite 1) then Finite 1
      else if feq y (Finite 1) then x
      else if x = NaN \<or> y = NaN then NaN
      else
        case y of
          Finite yi \<Rightarrow>
            if yi < 0 \<or> of_int \<lfloor>yi\<rfloor> \<noteq> yi then NaN
            else
              (case x of
                 Finite xr \<Rightarrow>
                   if xr = 0 then Finite 0
                   else if 2 ^ 63 \<le> yi then
                     (if xr = - 1 then Finite 1 else if \<bar>xr\<bar> < 1 then Finite 0 else PInf)
                   else
                     let fr = Frexp xr;
                         r = pow_loop \<lfloor>yi\<rfloor> (Finite (fst fr)) (snd fr) (Finite 1) 0
                     in Ldexp (fst r) (snd r)
               | PInf \<Rightarrow> PInf
               | NInf \<Rightarrow> (if isOddInt y then NInf else PInf)
               | NaN \<Rightarrow> NaN)
        | _ \<Rightarrow> NaN)"

section \<open>The backoff controller\<close>

text \<open>
  The \<open>Backoff\<close> struct. The counter \<open>n\<close> and \<open>MaxAttempts\<close> are of Go's type
  \<open>uint\<close>, here \<open>'u\<close>: every operation below takes it to be a word \<open>'w word\<close>,
  whose width \<open>'w\<close> depends on the platform (32 or 64 bits). \<open>Min\<close> and \<open>Max\<close> are
  durations. \<open>New\<close> installs the real timer.
\<close>

record 'u Backoff =
  n :: "'u"
  MaxAttempts :: "'u"
  Factor :: float64
  Min_dur :: Duration
  Max_dur :: Duration
  Timer :: realTimer

text \<open>\<open>maxInt64 = float64(math.MaxInt64 - 512)\<close>, a constant conversion.\<close>

definition maxInt64 :: float64 where
  "maxInt64 = float64_of_int (9223372036854775807 - 512)"

definition New :: "'w::len word \<Rightarrow> float64 \<Rightarrow> Duration \<Rightarrow> Duration \<Rightarrow> 'w word Backoff" where
  "New maxAttempts factor mn mx =
     \<lparr>n = 0, MaxAttempts = maxAttempts, Factor = factor, Min_dur = mn, Max_dur = mx,
      Timer = NewRealTimer\<rparr>"

definition Attempt :: "'w::len word Backoff \<Rightarrow> 'w word" where
  "Attempt b = n b"

definition duration :: "(float64 \<Rightarrow> 64 word) \<Rightarrow> 'w::len word Backoff \<Rightarrow> 'w word \<Rightarrow> Duration" where
  "duration cv b attempt =
     (if attempt = 0 then 0
      else
        let factor = Pow_float (Factor b) (float64_of_uint attempt);
            durF = fmul (float64_of_int64 (Min_dur b)) factor
        in if fgt durF maxInt64 then Max_dur b
           else
             let dur = int64_of_float64 cv durF
             in if dur <s Min_dur b then Min_dur b
                else if Max_dur b <s dur then Max_dur b
                else dur)"

definition Duration :: "(float64 \<Rightarrow> 64 word) \<Rightarrow> 'w::len word Backoff \<Rightarrow> Duration" where
  "Duration cv b = duration cv b (n b)"

definition Reset :: "'w::len word Backoff \<Rightarrow> 'w word Backoff" where
  "Reset b = b\<lparr>n := 0\<rparr>"

subsection \<open>\<open>Next\<close> and its environment\<close>

text \<open>
  \<open>Next\<close> reads two things it does not own: the context's \<open>Done\<close> channel and the
  timer's channel. What they hold when \<open>Next\<close> looks is the environment's choice, given
  here as a \<open>world\<close>:
  \<^item> \<open>cancelled\<close>: whether \<open>ctx.Done()\<close> is ready when the non-blocking \<open>select\<close> of
    the zero-duration branch polls it;
  \<^item> \<open>chosen\<close>: the case that the blocking \<open>select\<close> runs, \<open>ctx.Done()\<close> or
    \<open>Timer.C()\<close>;
  \<^item> \<open>expired_first\<close>: in the \<open>ctx.Done()\<close> case, whether the timer has expired by the
    time \<open>Stop\<close> is called.
  Besides its result and the new state, the model of \<open>Next\<close> yields the list of things
  it did to the context and the timer, in order.
\<close>

datatype select_case = Ctx_Done | Timer_C

record world =
  cancelled :: bool
  chosen :: select_case
  expired_first :: bool

datatype action =
    Poll_Done
  | Timer_Start Duration
  | Select
  | Timer_Stop
  | Recv_C

definition fire :: "realTimer \<Rightarrow> realTimer" where
  "fire t = t\<lparr>timer := map_option expire (timer t)\<rparr>"

definition Next ::
  "(float64 \<Rightarrow> 64 word) \<Rightarrow> world \<Rightarrow> 'w::len word Backoff \<Rightarrow> bool \<times> 'w word Backoff \<times> action list" where
  "Next cv w b =
     (if MaxAttempts b \<noteq> 0 \<and> MaxAttempts b \<le> n b then (False, b, [])
      else
        let d = Duration cv b;
            b1 = b\<lparr>n := n b + 1\<rparr>
        in if d = 0 then
             (if cancelled w then (False, b1, [Poll_Done]) else (True, b1, [Poll_Done]))
           else
             let b2 = b1\<lparr>Timer := Start (Timer b1) d\<rparr>
             in case chosen w of
                  Ctx_Done \<Rightarrow>
                    let t = (if expired_first w then fire (Timer b2) else Timer b2);
                        r = Stop t
                    in if \<not> fst r then
                         (False, b2\<lparr>Timer := snd r\<rparr>, [Timer_Start d, Select, Timer_Stop, Recv_C])
                       else (False, b2\<lparr>Timer := snd r\<rparr>, [Timer_Start d, Select, Timer_Stop])
                | Timer_C \<Rightarrow>
                    (True, b2\<lparr>Timer := fire (Timer b2)\<rparr>, [Timer_Start d, Select]))"

text \<open>
  The loop \<open>for b.Next(ctx) { i++ }\<close>: it counts the true returns and stops at the
  first false one. With no limit on the attempts and a context that is never cancelled
  the loop does not end; not ending is the value \<open>None\<close>. \<open>ws k\<close> is the world of the
  call that follows \<open>k\<close> true returns.
\<close>

partial_function (option) drive ::
  "(float64 \<Rightarrow> 64 word) \<Rightarrow> (nat \<Rightarrow> world) \<Rightarrow> nat \<Rightarrow> 'w::len word Backoff \<Rightarrow> (nat \<times> 'w word Backoff) option" where
  "drive cv ws i b =
     (let r = Next cv (ws i) b
      in if fst r then drive cv ws (Suc i) (fst (snd r)) else Some (i, fst (snd r)))"

text \<open>The states a controller can be in: made by \<open>New\<close>, then driven by its methods.\<close>

inductive reachable :: "(float64 \<Rightarrow> 64 word) \<Rightarrow> 'w::len word Backoff \<Rightarrow> bool"
  for cv :: "float64 \<Rightarrow> 64 word" where
  reach_New: "reachable cv (New maxAttempts factor mn mx)"
| reach_Next: "reachable cv b \<Longrightarrow> reachable cv (fst (snd (Next cv w b)))"
| reach_Reset: "reachable cv b \<Longrightarrow> reachable cv (Reset b)"

subsection \<open>The duration as the specification words it\<close>

text \<open>Raised to the lower bound if below it, lowered to the upper bound if above it.\<close>

definition clamp :: "Duration \<Rightarrow> Duration \<Rightarrow> Duration \<Rightarrow> Duration" where
  "clamp x lo hi = (if x <s lo then lo else if hi <s x then hi else x)"

definition spec_Duration :: "(float64 \<Rightarrow> 64 word) \<Rightarrow> 'w::len word Backoff \<Rightarrow> Duration" where
  "spec_Duration cv b =
     (if n b = 0 then 0
      else if fgt (fmul (float64_of_int64 (Min_dur b)) (Pow_float (Factor b) (float64_of_uint (n b))))
                maxInt64
      then Max_dur b
      else clamp (int64_of_float64 cv
                    (fmul (float64_of_int64 (Min_dur b)) (Pow_float (Factor b) (float64_of_uint (n b)))))
             (Min_dur b) (Max_dur b))"

subsection \<open>Values behind the floating-point operations\<close>

text \<open>
  For the proofs about \<open>math.Pow\<close>: \<open>rnd\<close> is rounding to 53 bits with no bound on
  the exponent, which is what \<open>round64\<close> does between the subnormal range and overflow
  (\<open>clipF\<close> adds the overflow); \<open>vloop\<close> is the loop of \<open>math.Pow\<close> on the numbers
  that the pairs of a fraction and an exponent denote; \<open>is_float64\<close> says that a finite
  value is one that \<open>float64\<close> represents; \<open>bounded\<close> is the end of \<open>duration\<close>,
  from the comparison with \<open>maxInt64\<close> on.
\<close>

definition rnd :: "rat \<Rightarrow> rat" where
  "rnd x = of_int (rne (x / pow2 (ilog2 x - 52))) * pow2 (ilog2 x - 52)"

definition clipF :: "rat \<Rightarrow> float64" where
  "clipF v = (if pow2 1024 \<le> v then PInf else Finite v)"

function vloop :: "int \<Rightarrow> rat \<Rightarrow> rat \<Rightarrow> rat" where
  "vloop i X A =
     (if i \<le> 0 then A
      else vloop (i div 2) (rnd (X * X)) (if odd i then rnd (A * X) else A))"
  by pat_completeness auto
termination
  by (relation "measure (\<lambda>(i, X, A). nat i)") auto

declare vloop.simps [simp del]

definition is_float64 :: "float64 \<Rightarrow> bool" where
  "is_float64 x = (case x of Finite r \<Rightarrow> round64 r = Finite r | _ \<Rightarrow> True)"

definition bounded ::
  "(float64 \<Rightarrow> 64 word) \<Rightarrow> Duration \<Rightarrow> Duration \<Rightarrow> float64 \<Rightarrow> Duration" where
  "bounded cv lo hi f = (if fgt f maxInt64 then hi else clamp (int64_of_float64 cv f) lo hi)"

subsection \<open>Example configurations\<close>

text \<open>
  \<open>backoff.New(3, 2, 1*time.Second, 5*time.Second)\<close>, the configuration of the
  package's example, on a platform with 64-bit \<open>uint\<close>; the two configurations of the
  tests "Duration" and "Duration does not exceed Max"; and a world in which the context
  is never cancelled and the timer always fires.
\<close>

definition example_backoff :: "64 word Backoff" where
  "example_backoff = New 3 (Finite 2) 1000000000 5000000000"

definition test_Duration_backoff :: "64 word Backoff" where
  "test_Duration_backoff = New 0 (Finite 2) 500000000 3000000000"

definition test_exceed_Max_backoff :: "64 word Backoff" where
  "test_exceed_Max_backoff = New 0 (Finite 2) 3000000000 500000000"

definition quiet :: world where
  "quiet = \<lparr>cancelled = False, chosen = Timer_C, expired_first = False\<rparr>"

definition cancelled_world :: world where
  "cancelled_world = \<lparr>cancelled = True, chosen = Ctx_Done, expired_first = False\<rparr>"

section \<open>Facts about the arithmetic\<close>

lemma rne_of_int: "rne (of_int k) = k"
  by (simp add: rne_def)

lemma ilog2_of_int: "0 < i \<Longrightarrow> ilog2 (of_int i) = bitlen i - 1"
  by (simp add: ilog2_def)

lemma below_pow2_1024: "(of_int i :: rat) < 2 ^ 53 \<Longrightarrow> \<not> pow2 1024 \<le> of_int i"
proof -
  assume "(of_int i :: rat) < 2 ^ 53"
  moreover have "(2::rat) ^ 53 \<le> 2 ^ 1024" by (rule power_increasing) simp_all
  ultimately show ?thesis by (simp add: pow2_def)
qed

text \<open>Integers of magnitude below \<open>2^53\<close> are representable: rounding leaves them alone.\<close>

lemma round64_pos_int:
  assumes "0 < i" and "i < 2 ^ 53"
  shows "round64 (of_int i) = Finite (of_int i)"
proof -
  let ?b = "bitlen i"
  from bitlen_bounds [OF assms(1)] have lo: "2 ^ nat (?b - 1) \<le> i"
    by simp
  have b1: "1 \<le> ?b"
    using assms(1) bitlen_eq_zero_iff [of i] bitlen_nonneg [of i] by linarith
  have lt: "(2::int) ^ nat (?b - 1) < 2 ^ 53" using lo assms(2) by linarith
  have one: "(1::int) < 2" by simp
  have "nat (?b - 1) < 53" by (rule power_less_imp_less_exp [OF one lt])
  then have b53: "?b \<le> 53" by linarith
  define s where "s = nat (53 - ?b)"
  have q: "pow2 (?b - 1 - 52) = 1 / 2 ^ s"
    using b53 by (auto simp add: pow2_def s_def)
  have m: "max (?b - 1) (- 1022) = ?b - 1" using b1 by simp
  have d: "(of_int i :: rat) / (1 / 2 ^ s) = of_int (i * 2 ^ s)" by simp
  have ov: "\<not> pow2 1024 \<le> (of_int i :: rat)"
    using assms(2) by (intro below_pow2_1024) (metis of_int_less_iff of_int_numeral of_int_power)
  have pos: "(0::rat) < of_int i" "(of_int i :: rat) \<noteq> 0" using assms(1) by simp_all
  have a: "\<bar>of_int i :: rat\<bar> = of_int i" using assms(1) by simp
  show ?thesis
    unfolding round64_def Let_def a ilog2_of_int [OF assms(1)] m q d rne_of_int
    using pos ov by simp
qed

lemma round64_minus:
  "round64 (- x) =
     (case round64 x of Finite y \<Rightarrow> Finite (- y) | PInf \<Rightarrow> NInf | NInf \<Rightarrow> PInf | NaN \<Rightarrow> NaN)"
  by (simp add: round64_def Let_def)

lemma round64_of_int_exact:
  assumes "\<bar>i\<bar> < 2 ^ 53"
  shows "round64 (of_int i) = Finite (of_int i)"
proof -
  consider "i = 0" | "0 < i" | "i < 0" by linarith
  then show ?thesis
  proof cases
    case 1
    then show ?thesis by (simp add: round64_def)
  next
    case 2
    then show ?thesis using assms by (intro round64_pos_int) simp_all
  next
    case 3
    then have "round64 (of_int (- i)) = Finite (of_int (- i))"
      using assms by (intro round64_pos_int) simp_all
    then show ?thesis using round64_minus [of "of_int (- i)"] by simp
  qed
qed

lemma bitlen_numeral: "bitlen (numeral k) = bitlen (numeral k div 2) + 1"
  by (subst compute_bitlen) simp

lemma bitlen_1: "bitlen 1 = 1"
  by (subst compute_bitlen) simp

lemma floor_rat_numeral: "\<lfloor>(numeral a :: rat) / numeral b\<rfloor> = numeral a div numeral b"
  using floor_divide_of_int_eq [of "numeral a" "numeral b", where ?'a = rat] by simp

text \<open>
  The overflow margin: \<open>MaxInt64 - 512\<close> lies between the neighbouring \<open>float64\<close>
  values \<open>2^63 - 1024\<close> and \<open>2^63\<close>, nearer to the first.
\<close>

lemma maxInt64_eq: "maxInt64 = Finite 9223372036854774784"
  by (simp add: maxInt64_def float64_of_int_def round64_def ilog2_def pow2_def rne_def
      bitlen_numeral bitlen_1 floor_rat_numeral Let_def)

lemma Pow_1: "Pow_float x (Finite 1) = x"
  by (auto simp add: Pow_float_def feq_def)

lemma float64_of_uint_1: "float64_of_uint (1 :: 'w::len word) = Finite 1"
  using round64_of_int_exact [of 1] by (simp add: float64_of_uint_def float64_of_int_def)

section \<open>Facts about the controller\<close>

lemma clamp_bounds: "lo \<le>s hi \<Longrightarrow> lo \<le>s clamp x lo hi \<and> clamp x lo hi \<le>s hi"
  by (auto simp add: clamp_def word_sle_eq word_sless_alt)

lemma duration_eq_clamp:
  "duration cv b attempt =
     (if attempt = 0 then 0
      else if fgt (fmul (float64_of_int64 (Min_dur b)) (Pow_float (Factor b) (float64_of_uint attempt)))
                maxInt64
      then Max_dur b
      else clamp (int64_of_float64 cv
                    (fmul (float64_of_int64 (Min_dur b)) (Pow_float (Factor b) (float64_of_uint attempt))))
             (Min_dur b) (Max_dur b))"
  by (simp add: duration_def clamp_def Let_def)

lemma Next_MaxAttempts: "MaxAttempts (fst (snd (Next cv w b))) = MaxAttempts b"
  by (auto simp add: Next_def Let_def split: select_case.splits)

lemma Next_n_exhausted:
  "MaxAttempts b \<noteq> 0 \<Longrightarrow> MaxAttempts b \<le> n b \<Longrightarrow> n (fst (snd (Next cv w b))) = n b"
  by (simp add: Next_def)

lemma Next_n_step:
  "\<not> (MaxAttempts b \<noteq> 0 \<and> MaxAttempts b \<le> n b) \<Longrightarrow>
   n (fst (snd (Next cv w b))) = n b + 1"
  by (auto simp add: Next_def Let_def split: select_case.splits)

lemma Next_quiet_true:
  "\<not> cancelled w \<Longrightarrow> chosen w = Timer_C \<Longrightarrow>
   fst (Next cv w b) = (\<not> (MaxAttempts b \<noteq> 0 \<and> MaxAttempts b \<le> n b))"
  by (auto simp add: Next_def Let_def)

text \<open>
  The loop from a state with \<open>m\<close> attempts left: \<open>m\<close> more true returns, then a false
  one, with the counter at the limit. By induction on \<open>m\<close>.
\<close>

lemma drive_counts:
  fixes b :: "'w::len word Backoff"
  assumes ws: "\<forall>k. \<not> cancelled (ws k) \<and> chosen (ws k) = Timer_C"
    and "MaxAttempts b \<noteq> 0" and "n b \<le> MaxAttempts b"
    and "m = unat (MaxAttempts b) - unat (n b)"
  shows "\<exists>b'. drive cv ws i b = Some (i + m, b') \<and> n b' = MaxAttempts b
           \<and> MaxAttempts b' = MaxAttempts b"
  using assms(2-)
proof (induction m arbitrary: b i)
  case 0
  then have "unat (MaxAttempts b) \<le> unat (n b)" by simp
  then have le: "MaxAttempts b \<le> n b" by (simp add: word_le_nat_alt)
  with 0 have eq: "n b = MaxAttempts b" by simp
  have "fst (Next cv (ws i) b) = False"
    using ws le 0 by (simp add: Next_quiet_true)
  moreover have "fst (snd (Next cv (ws i) b)) = b"
    using le 0 by (simp add: Next_def)
  ultimately show ?case
    using eq by (subst drive.simps) (simp add: Let_def)
next
  case (Suc m)
  let ?b = "fst (snd (Next cv (ws i) b))"
  from Suc.prems have lt: "unat (n b) < unat (MaxAttempts b)" by linarith
  then have nle: "\<not> MaxAttempts b \<le> n b" by (simp add: word_le_nat_alt)
  have t: "fst (Next cv (ws i) b)" using ws nle by (simp add: Next_quiet_true)
  have n': "n ?b = n b + 1" using nle by (simp add: Next_n_step)
  have ma: "MaxAttempts ?b = MaxAttempts b" by (rule Next_MaxAttempts)
  have ub: "unat (MaxAttempts b) < 2 ^ LENGTH('w)" by (rule unsigned_less)
  have u1: "unat (1 :: 'w word) = 1" by simp
  have "unat (n b) + unat (1 :: 'w word) < 2 ^ LENGTH('w)"
    unfolding u1 using lt ub by linarith
  then have un: "unat (n b + 1) = unat (n b) + 1"
    by (simp add: unat_add_lem [THEN iffD1])
  have "\<exists>b'. drive cv ws (Suc i) ?b = Some (Suc i + m, b') \<and> n b' = MaxAttempts ?b
          \<and> MaxAttempts b' = MaxAttempts ?b"
  proof (rule Suc.IH)
    show "MaxAttempts ?b \<noteq> 0" using ma Suc.prems by simp
    show "n ?b \<le> MaxAttempts ?b" using lt by (simp add: n' ma un word_le_nat_alt)
    show "m = unat (MaxAttempts ?b) - unat (n ?b)" using Suc.prems by (simp add: n' ma un)
  qed
  then show ?case
    using t ma by (subst drive.simps) (simp add: Let_def)
qed

section \<open>Monotonicity of the power and of the delay\<close>

subsection \<open>Powers of two and exponents\<close>

lemma pow2_power_int: "pow2 e = power_int 2 e"
  by (simp add: pow2_def power_int_def inverse_eq_divide power_divide)

lemma pow2_pos [simp]: "0 < pow2 e"
  by (simp add: pow2_power_int)

lemma pow2_add: "pow2 (a + b) = pow2 a * pow2 b"
  by (simp add: pow2_power_int power_int_add)

lemma pow2_diff: "pow2 (a - b) = pow2 a / pow2 b"
  by (simp add: pow2_power_int power_int_diff)

lemma pow2_0 [simp]: "pow2 0 = 1"
  by (simp add: pow2_def)

lemma pow2_nat: "0 \<le> e \<Longrightarrow> pow2 e = 2 ^ nat e"
  by (simp add: pow2_def)

lemma pow2_mono: "a \<le> b \<Longrightarrow> pow2 a \<le> pow2 b"
  by (simp add: pow2_power_int power_int_increasing)

lemma pow2_strict_mono: "a < b \<Longrightarrow> pow2 a < pow2 b"
  by (simp add: pow2_power_int power_int_strict_increasing)

lemma pow2_less_cancel: "pow2 a < pow2 b \<Longrightarrow> a < b"
  using pow2_mono [of b a] by (cases "a < b") auto

lemma pow2_le_cancel: "pow2 a \<le> pow2 b \<Longrightarrow> a \<le> b"
  using pow2_strict_mono [of b a] by (cases "a \<le> b") auto

lemma ilog2_bounds:
  assumes "0 < x"
  shows "pow2 (ilog2 x) \<le> x \<and> x < pow2 (ilog2 x + 1)"
proof (cases "1 \<le> x")
  case True
  let ?f = "\<lfloor>x\<rfloor>"
  let ?b = "bitlen ?f"
  have f1: "1 \<le> ?f" using True by simp
  then have fpos: "0 < ?f" by linarith
  from bitlen_bounds [OF fpos] have lo: "2 ^ nat (?b - 1) \<le> ?f" and hi: "?f < 2 ^ nat ?b"
    by simp_all
  have b1: "1 \<le> ?b"
    using fpos bitlen_eq_zero_iff [of ?f] bitlen_nonneg [of ?f] by linarith
  have "(of_int (2 ^ nat (?b - 1)) :: rat) \<le> of_int ?f" using lo by (simp only: of_int_le_iff)
  also have "\<dots> \<le> x" by simp
  finally have 1: "pow2 (?b - 1) \<le> x" using b1 by (simp add: pow2_nat)
  have "?f + 1 \<le> 2 ^ nat ?b" using hi by linarith
  then have "(of_int (?f + 1) :: rat) \<le> of_int (2 ^ nat ?b)" by (simp only: of_int_le_iff)
  moreover have "x < of_int (?f + 1)" by linarith
  ultimately have 2: "x < pow2 ?b" using b1 by (simp add: pow2_nat)
  show ?thesis using True 1 2 by (simp add: ilog2_def)
next
  case False
  define y where "y = 1 / x"
  have y1: "1 < y" using False assms by (simp add: y_def)
  let ?f = "\<lfloor>y\<rfloor>"
  let ?b = "bitlen ?f"
  have f1: "1 \<le> ?f" using y1 by simp
  then have fpos: "0 < ?f" by linarith
  from bitlen_bounds [OF fpos] have lo: "2 ^ nat (?b - 1) \<le> ?f" and hi: "?f < 2 ^ nat ?b"
    by simp_all
  have b1: "1 \<le> ?b"
    using fpos bitlen_eq_zero_iff [of ?f] bitlen_nonneg [of ?f] by linarith
  have "(of_int (2 ^ nat (?b - 1)) :: rat) \<le> of_int ?f" using lo by (simp only: of_int_le_iff)
  also have "\<dots> \<le> y" by simp
  finally have 1: "pow2 (?b - 1) \<le> y" using b1 by (simp add: pow2_nat)
  have "?f + 1 \<le> 2 ^ nat ?b" using hi by linarith
  then have "(of_int (?f + 1) :: rat) \<le> of_int (2 ^ nat ?b)" by (simp only: of_int_le_iff)
  moreover have "y < of_int (?f + 1)" by linarith
  ultimately have 2: "y < pow2 ?b" using b1 by (simp add: pow2_nat)
  have x: "x = 1 / y" using assms by (simp add: y_def)
  have inv: "\<And>e. pow2 (- e) = 1 / pow2 e"
    by (simp add: pow2_power_int power_int_minus inverse_eq_divide)
  show ?thesis
  proof (cases "y = pow2 (?b - 1)")
    case True
    then have il: "ilog2 x = - (?b - 1)" using False by (simp add: ilog2_def y_def Let_def)
    have "x = 1 / pow2 (?b - 1)" using True x by simp
    also have "\<dots> = pow2 (- (?b - 1))" by (simp only: inv)
    finally have "x = pow2 (- (?b - 1))" .
    then show ?thesis using il pow2_strict_mono [of "- (?b - 1)" "- (?b - 1) + 1"] by simp
  next
    case ne: False
    then have il: "ilog2 x = - (?b - 1) - 1" using False by (simp add: ilog2_def y_def Let_def)
    have lt: "pow2 (?b - 1) < y" using 1 ne by simp
    have "1 / pow2 ?b < 1 / y" using 2 y1 by (simp add: frac_less2)
    then have "pow2 (- ?b) < x" unfolding x inv .
    then have a: "pow2 (- (?b - 1) - 1) \<le> x" by simp
    have "1 / y < 1 / pow2 (?b - 1)" using lt by (simp add: frac_less2)
    then have "x < pow2 (- (?b - 1))" unfolding x inv .
    then have b: "x < pow2 (- (?b - 1) - 1 + 1)" by simp
    show ?thesis unfolding il using a b by (rule conjI)
  qed
qed

lemma ilog2_unique:
  assumes "pow2 e \<le> x" and "x < pow2 (e + 1)"
  shows "ilog2 x = e"
proof -
  have "0 < x" using assms(1) pow2_pos [of e] by linarith
  from ilog2_bounds [OF this] have a: "pow2 (ilog2 x) \<le> x" and b: "x < pow2 (ilog2 x + 1)"
    by simp_all
  have "pow2 e < pow2 (ilog2 x + 1)" using assms(1) b by linarith
  then have 1: "e < ilog2 x + 1" by (rule pow2_less_cancel)
  have "pow2 (ilog2 x) < pow2 (e + 1)" using assms(2) a by linarith
  then have 2: "ilog2 x < e + 1" by (rule pow2_less_cancel)
  show ?thesis using 1 2 by linarith
qed

lemma ilog2_scale: "0 < x \<Longrightarrow> ilog2 (x * pow2 k) = ilog2 x + k"
proof (rule ilog2_unique)
  assume "0 < x"
  from ilog2_bounds [OF this] have a: "pow2 (ilog2 x) \<le> x" and b: "x < pow2 (ilog2 x + 1)"
    by simp_all
  show "pow2 (ilog2 x + k) \<le> x * pow2 k" using a by (simp add: pow2_add)
  have "x * pow2 k < pow2 (ilog2 x + 1) * pow2 k" using b by simp
  then show "x * pow2 k < pow2 (ilog2 x + k + 1)" by (simp add: pow2_add mult.commute mult.left_commute)
qed

lemma ilog2_pow2 [simp]: "ilog2 (pow2 k) = k"
  by (rule ilog2_unique) (simp_all add: pow2_strict_mono)

lemma ilog2_mono: "0 < x \<Longrightarrow> x \<le> y \<Longrightarrow> ilog2 x \<le> ilog2 y"
proof -
  assume x: "0 < x" and xy: "x \<le> y"
  then have y: "0 < y" by linarith
  have "pow2 (ilog2 x) \<le> x" using ilog2_bounds [OF x] by simp
  also have "\<dots> \<le> y" by (rule xy)
  also have "\<dots> < pow2 (ilog2 y + 1)" using ilog2_bounds [OF y] by simp
  finally have "ilog2 x < ilog2 y + 1" by (rule pow2_less_cancel)
  then show ?thesis by simp
qed

subsection \<open>Rounding\<close>

lemma rne_bounds: "\<lfloor>x\<rfloor> \<le> rne x \<and> rne x \<le> \<lfloor>x\<rfloor> + 1"
  by (simp add: rne_def Let_def)

lemma rne_mono: "x \<le> y \<Longrightarrow> rne x \<le> rne y"
proof -
  assume xy: "x \<le> y"
  then have f: "\<lfloor>x\<rfloor> \<le> \<lfloor>y\<rfloor>" by (rule floor_mono)
  show ?thesis
  proof (cases "\<lfloor>x\<rfloor> = \<lfloor>y\<rfloor>")
    case True
    then show ?thesis using xy by (auto simp add: rne_def Let_def)
  next
    case False
    then have "\<lfloor>x\<rfloor> + 1 \<le> \<lfloor>y\<rfloor>" using f by linarith
    then show ?thesis using rne_bounds [of x] rne_bounds [of y] by linarith
  qed
qed

lemma rne_ge: "of_int k \<le> x \<Longrightarrow> k \<le> rne x"
  using rne_mono [of "of_int k" x] by (simp add: rne_of_int)

lemma rne_le: "x \<le> of_int k \<Longrightarrow> rne x \<le> k"
  using rne_mono [of x "of_int k"] by (simp add: rne_of_int)

lemma pow2_52: "pow2 52 = of_int (2 ^ 52)"
  by (simp add: pow2_def)

lemma pow2_53: "pow2 53 = of_int (2 ^ 53)"
  by (simp add: pow2_def)

lemma pow2_split: "pow2 a = pow2 b * pow2 (a - b)"
  using pow2_add [of b "a - b"] by simp

lemma pow2_quot: "pow2 a / pow2 (a - b) = pow2 b"
  using pow2_diff [of a "a - b"] by simp

text \<open>The significand of a positive number, scaled to the integers from \<open>2^52\<close>.\<close>

lemma scaled_bounds:
  assumes "0 < x"
  shows "pow2 52 \<le> x / pow2 (ilog2 x - 52)" and "x / pow2 (ilog2 x - 52) < pow2 53"
proof -
  from ilog2_bounds [OF assms] have a: "pow2 (ilog2 x) \<le> x" and b: "x < pow2 (ilog2 x + 1)"
    by simp_all
  have "pow2 52 = pow2 (ilog2 x) / pow2 (ilog2 x - 52)"
    by (simp only: pow2_quot)
  also have "\<dots> \<le> x / pow2 (ilog2 x - 52)"
    by (rule divide_right_mono [OF a]) (simp add: less_imp_le)
  finally show "pow2 52 \<le> x / pow2 (ilog2 x - 52)" .
  have "x / pow2 (ilog2 x - 52) < pow2 (ilog2 x + 1) / pow2 (ilog2 x - 52)"
    by (rule divide_strict_right_mono [OF b]) simp
  also have "\<dots> = pow2 53" using pow2_quot [of "ilog2 x + 1" 53] by simp
  finally show "x / pow2 (ilog2 x - 52) < pow2 53" .
qed

lemma rne_scaled:
  assumes "0 < x"
  shows "2 ^ 52 \<le> rne (x / pow2 (ilog2 x - 52))" and "rne (x / pow2 (ilog2 x - 52)) \<le> 2 ^ 53"
proof -
  show "2 ^ 52 \<le> rne (x / pow2 (ilog2 x - 52))"
    using scaled_bounds(1) [OF assms] unfolding pow2_52 by (rule rne_ge)
  have "x / pow2 (ilog2 x - 52) \<le> of_int (2 ^ 53)"
    using scaled_bounds(2) [OF assms] unfolding pow2_53 by simp
  then show "rne (x / pow2 (ilog2 x - 52)) \<le> 2 ^ 53" by (rule rne_le)
qed

lemma rnd_lower: "0 < x \<Longrightarrow> pow2 (ilog2 x) \<le> rnd x"
proof -
  assume x: "0 < x"
  have "pow2 (ilog2 x) = pow2 52 * pow2 (ilog2 x - 52)"
    using pow2_add [of 52 "ilog2 x - 52"] by simp
  also have "\<dots> \<le> of_int (rne (x / pow2 (ilog2 x - 52))) * pow2 (ilog2 x - 52)"
    unfolding pow2_52 using rne_scaled(1) [OF x]
    by (intro mult_right_mono) (simp_all only: of_int_le_iff pow2_pos less_imp_le)
  finally show ?thesis by (simp add: rnd_def)
qed

lemma rnd_upper: "0 < x \<Longrightarrow> rnd x \<le> pow2 (ilog2 x + 1)"
proof -
  assume x: "0 < x"
  have "of_int (rne (x / pow2 (ilog2 x - 52))) * pow2 (ilog2 x - 52)
        \<le> pow2 53 * pow2 (ilog2 x - 52)"
    unfolding pow2_53 using rne_scaled(2) [OF x]
    by (intro mult_right_mono) (simp_all only: of_int_le_iff pow2_pos less_imp_le)
  also have "\<dots> = pow2 (ilog2 x + 1)" using pow2_split [of "ilog2 x + 1" 53] by simp
  finally show ?thesis by (simp add: rnd_def)
qed

lemma rnd_pos: "0 < x \<Longrightarrow> 0 < rnd x"
  using rnd_lower [of x] pow2_pos [of "ilog2 x"] by linarith

lemma rnd_mono:
  assumes "0 < x" and "x \<le> y"
  shows "rnd x \<le> rnd y"
proof -
  have y: "0 < y" using assms by linarith
  have le: "ilog2 x \<le> ilog2 y" using assms by (rule ilog2_mono)
  show ?thesis
  proof (cases "ilog2 x = ilog2 y")
    case True
    have "x / pow2 (ilog2 y - 52) \<le> y / pow2 (ilog2 y - 52)"
      by (rule divide_right_mono [OF assms(2)]) (simp add: less_imp_le)
    then have "rne (x / pow2 (ilog2 y - 52)) \<le> rne (y / pow2 (ilog2 y - 52))" by (rule rne_mono)
    then have "(of_int (rne (x / pow2 (ilog2 y - 52))) :: rat) \<le> of_int (rne (y / pow2 (ilog2 y - 52)))"
      by (simp only: of_int_le_iff)
    then show ?thesis unfolding rnd_def True
      by (intro mult_right_mono) (simp_all add: less_imp_le)
  next
    case False
    then have "ilog2 x + 1 \<le> ilog2 y" using le by linarith
    then have "pow2 (ilog2 x + 1) \<le> pow2 (ilog2 y)" by (rule pow2_mono)
    then show ?thesis using rnd_upper [OF assms(1)] rnd_lower [OF y] by linarith
  qed
qed

lemma rnd_scale: "0 < x \<Longrightarrow> rnd (x * pow2 k) = rnd x * pow2 k"
proof -
  assume x: "0 < x"
  have q: "pow2 (ilog2 x + k - 52) = pow2 (ilog2 x - 52) * pow2 k"
    using pow2_add [of "ilog2 x - 52" k] by (simp add: algebra_simps)
  show ?thesis
    unfolding rnd_def ilog2_scale [OF x] q by simp
qed

lemma rnd_pow2 [simp]: "rnd (pow2 k) = pow2 k"
proof -
  have "rnd (pow2 k) = of_int (rne (pow2 52)) * pow2 (k - 52)"
    unfolding rnd_def ilog2_pow2 pow2_quot ..
  also have "\<dots> = pow2 52 * pow2 (k - 52)"
    unfolding pow2_52 rne_of_int ..
  also have "\<dots> = pow2 k" by (simp only: pow2_split [symmetric])
  finally show ?thesis .
qed

lemma rnd_grid:
  assumes "2 ^ 52 \<le> M" and "M \<le> 2 ^ 53"
  shows "rnd (of_int M * pow2 s) = of_int M * pow2 s"
proof (cases "M = 2 ^ 53")
  case True
  have "of_int M * pow2 s = pow2 (53 + s)" unfolding True pow2_add pow2_53 by simp
  then show ?thesis by (simp only: rnd_pow2)
next
  case False
  then have lt: "M < 2 ^ 53" using assms(2) by linarith
  have il: "ilog2 (of_int M * pow2 s) = 52 + s"
  proof (rule ilog2_unique)
    have "pow2 52 * pow2 s \<le> of_int M * pow2 s"
      unfolding pow2_52 using assms(1)
      by (intro mult_right_mono) (simp_all only: of_int_le_iff pow2_pos less_imp_le)
    then show "pow2 (52 + s) \<le> of_int M * pow2 s" by (simp add: pow2_add)
    have "(of_int M :: rat) < of_int (2 ^ 53)" using lt by (simp only: of_int_less_iff)
    then have "of_int M * pow2 s < pow2 53 * pow2 s"
      unfolding pow2_53 by (intro mult_strict_right_mono) simp_all
    then show "of_int M * pow2 s < pow2 (52 + s + 1)"
      using pow2_add [of 53 s] by (simp add: add.commute)
  qed
  show ?thesis unfolding rnd_def il by (simp add: rne_of_int)
qed

lemma rnd_idem: "0 < x \<Longrightarrow> rnd (rnd x) = rnd x"
  unfolding rnd_def [of x] by (intro rnd_grid rne_scaled)

lemma rnd_1 [simp]: "rnd 1 = 1"
  using rnd_pow2 [of 0] by simp

lemma round64_normal:
  assumes "pow2 (- 1022) \<le> x"
  shows "round64 x = clipF (rnd x)"
proof -
  have x: "0 < x" using assms pow2_pos [of "- 1022"] by linarith
  have "ilog2 (pow2 (- 1022)) \<le> ilog2 x" using assms by (intro ilog2_mono) simp_all
  then have m: "max (ilog2 x) (- 1022) = ilog2 x" by simp
  have a: "\<bar>x\<bar> = x" using x by simp
  show ?thesis
    unfolding round64_def Let_def a m clipF_def rnd_def using x by simp
qed

subsection \<open>The loop on values\<close>

text \<open>
  With a base of at least \<open>1\<close>, the squares and the accumulator only grow, and a larger
  exponent gives a larger result: where the lower bits of the smaller exponent make it
  lead, its accumulator still stays below the current square, which the larger exponent's
  next set bit multiplies in.
\<close>

lemma square_ge_1: "(1::rat) \<le> X \<Longrightarrow> 1 \<le> X * X"
  using mult_mono [of 1 X 1 X] by simp

lemma rnd_mult_ge_left: "0 < c \<Longrightarrow> rnd c = c \<Longrightarrow> 1 \<le> X \<Longrightarrow> c \<le> rnd (c * X)"
proof -
  assume c: "0 < c" and r: "rnd c = c" and X: "1 \<le> X"
  have "c * 1 \<le> c * X" using c X by (intro mult_left_mono) simp_all
  then have "rnd c \<le> rnd (c * X)" using c by (intro rnd_mono) simp_all
  then show ?thesis by (simp only: r)
qed

lemma rnd_mult_ge_right: "1 \<le> c \<Longrightarrow> rnd X = X \<Longrightarrow> 1 \<le> X \<Longrightarrow> X \<le> rnd (c * X)"
  using rnd_mult_ge_left [of X c] by (simp add: mult.commute)

lemma rnd_ge_1: "1 \<le> x \<Longrightarrow> 1 \<le> rnd x"
  using rnd_mono [of 1 x] by simp

lemma rnd_square_ge: "rnd X = X \<Longrightarrow> 1 \<le> X \<Longrightarrow> X \<le> rnd (X * X)"
  by (rule rnd_mult_ge_left) simp_all

lemma vloop_ge_acc:
  "1 \<le> X \<Longrightarrow> 0 < c \<Longrightarrow> rnd c = c \<Longrightarrow> c \<le> vloop j X c"
proof (induction "nat j" arbitrary: j X c rule: less_induct)
  case less
  show ?case
  proof (cases "j \<le> 0")
    case True
    then show ?thesis by (simp add: vloop.simps)
  next
    case False
    define c' where "c' = (if odd j then rnd (c * X) else c)"
    have cX: "0 < c * X" using less.prems by simp
    have 1: "c \<le> c'" using less.prems by (simp add: c'_def rnd_mult_ge_left)
    have 2: "0 < c'" using 1 less.prems by linarith
    have 3: "rnd c' = c'" using less.prems cX by (simp add: c'_def rnd_idem)
    have 4: "1 \<le> rnd (X * X)" using less.prems by (intro rnd_ge_1) (rule square_ge_1)
    have "c' \<le> vloop (j div 2) (rnd (X * X)) c'"
      using False by (intro less.hyps 2 3 4) simp
    then show ?thesis
      using False 1 by (subst vloop.simps) (simp add: c'_def)
  qed
qed

lemma vloop_ge_square:
  "1 \<le> j \<Longrightarrow> 1 \<le> X \<Longrightarrow> rnd X = X \<Longrightarrow> 1 \<le> c \<Longrightarrow> rnd c = c \<Longrightarrow> X \<le> vloop j X c"
proof (induction "nat j" arbitrary: j X c rule: less_induct)
  case less
  have j: "\<not> j \<le> 0" using less.prems by simp
  have XX: "0 < X * X" using less.prems by simp
  have X1: "1 \<le> rnd (X * X)" using less.prems by (intro rnd_ge_1) (rule square_ge_1)
  have Xr: "rnd (rnd (X * X)) = rnd (X * X)" using XX by (rule rnd_idem)
  have XX': "X \<le> rnd (X * X)" using less.prems by (intro rnd_square_ge)
  show ?case
  proof (cases "odd j")
    case True
    have cX: "0 < c * X" using less.prems by simp
    have "X \<le> rnd (c * X)" using less.prems by (intro rnd_mult_ge_right)
    also have "\<dots> \<le> vloop (j div 2) (rnd (X * X)) (rnd (c * X))"
      using cX less.prems by (intro vloop_ge_acc X1 rnd_idem) (simp_all add: rnd_pos)
    finally show ?thesis using True j by (subst vloop.simps) simp
  next
    case False
    then have "1 \<le> j div 2" using less.prems(1) by presburger
    then have "rnd (X * X) \<le> vloop (j div 2) (rnd (X * X)) c"
      using less.prems j by (intro less.hyps X1 Xr) simp_all
    then show ?thesis using False j XX' by (subst vloop.simps) simp
  qed
qed

lemma vloop_mono:
  assumes "0 \<le> i" and "i \<le> j" and "0 < a" and "a \<le> X" and "1 \<le> c" and "rnd c = c"
    and "1 \<le> X" and "rnd X = X" and "a \<le> c \<or> i < j"
  shows "vloop i X a \<le> vloop j X c"
  using assms
proof (induction "nat j" arbitrary: i j X a c rule: less_induct)
  case less
  show ?case
  proof (cases "i = 0")
    case True
    have "a \<le> vloop j X c"
    proof (cases "a \<le> c")
      case True
      also have "c \<le> vloop j X c" using less.prems by (intro vloop_ge_acc) simp_all
      finally show ?thesis .
    next
      case False
      then have "1 \<le> j" using less.prems \<open>i = 0\<close> by simp
      then have "X \<le> vloop j X c" using less.prems by (intro vloop_ge_square) simp_all
      then show ?thesis using less.prems by linarith
    qed
    then show ?thesis using True by (simp add: vloop.simps [of 0])
  next
    case False
    then have i: "\<not> i \<le> 0" and j: "\<not> j \<le> 0" using less.prems by simp_all
    define X' where "X' = rnd (X * X)"
    define a' where "a' = (if odd i then rnd (a * X) else a)"
    define c' where "c' = (if odd j then rnd (c * X) else c)"
    have Xpos: "0 < X" using less.prems by linarith
    have cpos: "0 < c" using less.prems by linarith
    have XX: "0 < X * X" using Xpos by simp
    have aX: "0 < a * X" using less.prems Xpos by simp
    have cX: "0 < c * X" using cpos Xpos by simp
    have X1: "1 \<le> X'" unfolding X'_def using less.prems by (intro rnd_ge_1) (rule square_ge_1)
    have Xr: "rnd X' = X'" unfolding X'_def using XX by (rule rnd_idem)
    have XX': "X \<le> X'" unfolding X'_def using less.prems by (intro rnd_square_ge)
    have "a * X \<le> X * X" using less.prems Xpos by (intro mult_right_mono) simp_all
    then have "rnd (a * X) \<le> X'" unfolding X'_def using aX by (intro rnd_mono)
    then have a'X: "a' \<le> X'" using less.prems XX' by (simp add: a'_def)
    have a'pos: "0 < a'" using less.prems aX by (simp add: a'_def rnd_pos)
    have c_le: "c \<le> rnd (c * X)" using cpos less.prems by (intro rnd_mult_ge_left)
    have c'1: "1 \<le> c'" using less.prems c_le by (simp add: c'_def)
    have c'r: "rnd c' = c'" using less.prems cX by (simp add: c'_def rnd_idem)
    have half: "i div 2 \<le> j div 2" using less.prems by (intro zdiv_mono1) simp_all
    have alt: "a' \<le> c' \<or> i div 2 < j div 2"
    proof (cases "i div 2 < j div 2")
      case True
      then show ?thesis ..
    next
      case False
      then have eq: "i div 2 = j div 2" using half by linarith
      have par: "odd i \<longrightarrow> odd j" using eq less.prems(2) by presburger
      have "a' \<le> c'"
      proof (cases "a \<le> c")
        case True
        then have "a * X \<le> c * X" using Xpos by (intro mult_right_mono) simp_all
        then have "rnd (a * X) \<le> rnd (c * X)" using aX by (intro rnd_mono)
        then show ?thesis using par True c_le by (auto simp add: a'_def c'_def)
      next
        case False
        then have "i < j" using less.prems by blast
        then have ev: "even i" and od: "odd j" using eq by presburger+
        have "a \<le> X" using less.prems by simp
        also have "X \<le> rnd (c * X)" using less.prems by (intro rnd_mult_ge_right)
        finally show ?thesis using ev od by (simp add: a'_def c'_def)
      qed
      then show ?thesis ..
    qed
    have "vloop (i div 2) X' a' \<le> vloop (j div 2) X' c'"
      using j less.prems(1) by (intro less.hyps half a'pos a'X c'1 c'r X1 Xr alt) simp_all
    then show ?thesis
      using i j by (subst vloop.simps, subst (2) vloop.simps) (simp add: X'_def a'_def c'_def)
  qed
qed

subsection \<open>The loop of \<open>math.Pow\<close> computes the loop on values\<close>

lemma clipF_Finite: "v < pow2 1024 \<Longrightarrow> clipF v = Finite v"
  by (simp add: clipF_def)

lemma clipF_PInf: "pow2 1024 \<le> v \<Longrightarrow> clipF v = PInf"
  by (simp add: clipF_def)

lemma one_less_pow2_1024: "1 < pow2 1024"
  using pow2_strict_mono [of 0 1024] by simp

lemma round64_unit:
  assumes "pow2 (- 1022) \<le> x" and "x \<le> 1"
  shows "round64 x = Finite (rnd x)"
proof -
  have x: "0 < x" using assms(1) pow2_pos [of "- 1022"] by linarith
  have "rnd x \<le> rnd 1" using x assms(2) by (rule rnd_mono)
  then have "rnd x < pow2 1024" using one_less_pow2_1024 by simp
  then show ?thesis using round64_normal [OF assms(1)] by (simp add: clipF_Finite)
qed

lemma round64_rep:
  assumes "1 \<le> x" and "rnd x = x"
  shows "round64 x = clipF x"
proof -
  have "pow2 (- 1022) \<le> pow2 0" by (rule pow2_mono) simp
  then have "pow2 (- 1022) \<le> x" using assms(1) by simp
  from round64_normal [OF this] show ?thesis by (simp only: assms(2))
qed

lemma round64_huge:
  assumes "pow2 1024 \<le> x"
  shows "round64 x = PInf"
proof -
  have x: "pow2 (- 1022) \<le> x" using pow2_mono [of "- 1022" 1024] assms by simp
  have "rnd (pow2 1024) \<le> rnd x" using assms by (intro rnd_mono) simp_all
  then have "pow2 1024 \<le> rnd x" by simp
  then show ?thesis using round64_normal [OF x] by (simp add: clipF_PInf)
qed

lemma pow2_m2: "pow2 (- 2) = 1 / 4"
  by (simp add: pow2_def)

lemma pow2_m1: "pow2 (- 1) = 1 / 2"
  by (simp add: pow2_def)

lemma pow2_1: "pow2 1 = 2"
  by (simp add: pow2_def)

lemma pow_loop_step:
  assumes "\<not> i \<le> 0" and "\<not> (xe < - (2 ^ 12) \<or> 2 ^ 12 < xe)"
    and "fmul x1 x1 = Finite m2"
  shows "pow_loop i x1 xe a1 ae =
     (if m2 < 1 / 2
      then pow_loop (i div 2) (fadd (Finite m2) (Finite m2)) (2 * xe - 1)
             (if odd i then fmul a1 x1 else a1) (if odd i then ae + xe else ae)
      else pow_loop (i div 2) (Finite m2) (2 * xe)
             (if odd i then fmul a1 x1 else a1) (if odd i then ae + xe else ae))"
  using assms by (subst pow_loop.simps) (simp add: Let_def)

lemma pow_loop_value:
  assumes "i < 2 ^ k" and "k \<le> 64"
    and "1 / 2 \<le> m" and "m \<le> 1" and "rnd m = m"
    and "X = m * pow2 xe" and "1 \<le> X"
    and "pow2 (int k - 70) \<le> p" and "p \<le> 1" and "rnd p = p"
    and "A = p * pow2 ae" and "1 \<le> A" and "0 \<le> ae"
  shows "Ldexp (fst (pow_loop i (Finite m) xe (Finite p) ae))
               (snd (pow_loop i (Finite m) xe (Finite p) ae)) = clipF (vloop i X A)"
  using assms
proof (induction k arbitrary: i m xe X p ae A)
  case 0
  then have i: "i \<le> 0" by simp
  have ppos: "0 < p" using "0.prems" pow2_pos [of "int 0 - 70"] by linarith
  have "rnd A = A" using "0.prems" ppos by (simp add: rnd_scale)
  then have "round64 A = clipF A" using "0.prems" by (intro round64_rep)
  then show ?case using i "0.prems"
    by (subst (1 2) pow_loop.simps, subst vloop.simps) (simp add: Ldexp_def)
next
  case (Suc k)
  have ppos: "0 < p" using Suc.prems pow2_pos [of "int (Suc k) - 70"] by linarith
  have mpos: "0 < m" using Suc.prems by linarith
  have Ar: "rnd A = A" using Suc.prems ppos by (simp add: rnd_scale)
  have Xr: "rnd X = X" using Suc.prems mpos by (simp add: rnd_scale)
  have "1 \<le> m * pow2 xe" using Suc.prems by simp
  also have "\<dots> \<le> 1 * pow2 xe" using Suc.prems by (intro mult_right_mono) (simp_all add: less_imp_le)
  finally have "pow2 0 \<le> pow2 xe" by simp
  then have xe0: "0 \<le> xe" by (rule pow2_le_cancel)
  show ?case
  proof (cases "i \<le> 0")
    case True
    have "round64 A = clipF A" using Suc.prems Ar by (intro round64_rep)
    then show ?thesis using True Suc.prems
      by (subst (1 2) pow_loop.simps, subst vloop.simps) (simp add: Ldexp_def)
  next
    case False
    then have i1: "1 \<le> i" by simp
    show ?thesis
    proof (cases "2 ^ 12 < xe")
      case True
      have "pow2 1024 \<le> pow2 (xe - 1)" using True by (intro pow2_mono) simp
      also have "\<dots> = pow2 (- 1) * pow2 xe" using pow2_add [of "- 1" xe] by simp
      also have "\<dots> \<le> X" unfolding pow2_m1 using Suc.prems
        by (simp add: mult_right_mono less_imp_le)
      finally have Xbig: "pow2 1024 \<le> X" .
      have "X \<le> vloop i X A" using i1 Suc.prems Xr Ar by (intro vloop_ge_square)
      then have v: "clipF (vloop i X A) = PInf" using Xbig by (intro clipF_PInf) simp
      have "pow2 1024 \<le> pow2 xe" using True by (intro pow2_mono) simp
      also have "\<dots> = 1 * pow2 xe" by simp
      also have "\<dots> \<le> A * pow2 xe" using Suc.prems by (intro mult_right_mono) (simp_all add: less_imp_le)
      finally have "pow2 1024 \<le> p * pow2 (ae + xe)" using Suc.prems by (simp add: pow2_add)
      then have "round64 (p * pow2 (ae + xe)) = PInf" by (rule round64_huge)
      then show ?thesis using True False v
        by (subst (1 2) pow_loop.simps) (simp add: Ldexp_def)
    next
      case noBreak: False
      have nb: "\<not> (xe < - (2 ^ 12) \<or> 2 ^ 12 < xe)" using noBreak xe0 by simp
      define p' where "p' = (if odd i then rnd (p * m) else p)"
      define ae' where "ae' = (if odd i then ae + xe else ae)"
      define A' where "A' = (if odd i then rnd (A * X) else A)"
      define m2 where "m2 = rnd (m * m)"
      define m' where "m' = (if m2 < 1 / 2 then m2 + m2 else m2)"
      define xe' where "xe' = (if m2 < 1 / 2 then 2 * xe - 1 else 2 * xe)"
      define X' where "X' = rnd (X * X)"
      have pm_lo: "pow2 (int k - 70) \<le> p * m"
      proof -
        have "pow2 (int k - 70) = pow2 (int (Suc k) - 70) * pow2 (- 1)"
          using pow2_add [of "int (Suc k) - 70" "- 1"] by simp
        also have "\<dots> \<le> p * m" unfolding pow2_m1 using Suc.prems(3,8) ppos
          by (intro mult_mono) (simp_all add: less_imp_le)
        finally show ?thesis .
      qed
      have pm_pos: "0 < p * m" using ppos mpos by simp
      have "p * m \<le> 1 * 1" using Suc.prems(4,9) mpos by (intro mult_mono) simp_all
      then have pm_le: "p * m \<le> 1" by simp
      have "pow2 (- 1022) \<le> pow2 (int k - 70)" by (intro pow2_mono) simp
      then have pm_norm: "pow2 (- 1022) \<le> p * m" using pm_lo by linarith
      have fm: "fmul (Finite p) (Finite m) = Finite (rnd (p * m))"
        using round64_unit [OF pm_norm pm_le] by simp
      have "rnd (pow2 (int k - 70)) \<le> rnd (p * m)" using pm_lo by (intro rnd_mono) simp_all
      then have rpm_lo: "pow2 (int k - 70) \<le> rnd (p * m)" by simp
      have rpm_le: "rnd (p * m) \<le> 1" using rnd_mono [OF pm_pos pm_le] by simp
      have "pow2 (int k - 70) \<le> pow2 (int (Suc k) - 70)" by (intro pow2_mono) simp
      then have p'lo: "pow2 (int k - 70) \<le> p'" using rpm_lo Suc.prems by (simp add: p'_def)
      have p'le: "p' \<le> 1" using rpm_le Suc.prems by (simp add: p'_def)
      have p'r: "rnd p' = p'" using Suc.prems pm_pos by (simp add: p'_def rnd_idem)
      have ae'0: "0 \<le> ae'" using Suc.prems xe0 by (simp add: ae'_def)
      have AX: "A * X = (p * m) * pow2 (ae + xe)" using Suc.prems by (simp add: pow2_add)
      have rAX: "rnd (A * X) = rnd (p * m) * pow2 (ae + xe)"
        unfolding AX using pm_pos by (rule rnd_scale)
      have A'eq: "A' = p' * pow2 ae'"
      proof (cases "odd i")
        case True
        then show ?thesis unfolding A'_def p'_def ae'_def by (simp add: rAX)
      next
        case False
        then show ?thesis unfolding A'_def p'_def ae'_def by (simp add: Suc.prems(11))
      qed
      have AX1: "1 \<le> A * X" using Suc.prems mult_mono [of 1 A 1 X] by simp
      have A'1: "1 \<le> A'" using Suc.prems AX1 by (simp add: A'_def rnd_ge_1)
      have mm_lo: "1 / 4 \<le> m * m" using Suc.prems mult_mono [of "1 / 2" m "1 / 2" m] by simp
      have "m * m \<le> 1 * 1" using Suc.prems(4) mpos by (intro mult_mono) simp_all
      then have mm_le: "m * m \<le> 1" by simp
      have mm_pos: "0 < m * m" using mpos by simp
      have "pow2 (- 1022) \<le> pow2 (- 2)" by (intro pow2_mono) simp
      then have mm_norm: "pow2 (- 1022) \<le> m * m" using mm_lo by (simp add: pow2_m2)
      have fsq: "fmul (Finite m) (Finite m) = Finite m2"
        using round64_unit [OF mm_norm mm_le] by (simp add: m2_def)
      have "rnd (pow2 (- 2)) \<le> rnd (m * m)" using mm_lo by (intro rnd_mono) (simp_all add: pow2_m2)
      then have "pow2 (- 2) \<le> rnd (m * m)" by (simp only: rnd_pow2)
      then have m2_lo: "1 / 4 \<le> m2" by (simp add: m2_def pow2_m2)
      have m2_le: "m2 \<le> 1" using rnd_mono [OF mm_pos mm_le] by (simp add: m2_def)
      have m2_pos: "0 < m2" using m2_lo by linarith
      have m2_r: "rnd m2 = m2" unfolding m2_def using mm_pos by (rule rnd_idem)
      have dbl: "m2 + m2 = m2 * pow2 1" by (simp add: pow2_1)
      have dbl_r: "rnd (m2 + m2) = m2 + m2"
        unfolding dbl rnd_scale [OF m2_pos] m2_r ..
      have fdbl: "m2 < 1 / 2 \<Longrightarrow> fadd (Finite m2) (Finite m2) = Finite (m2 + m2)"
      proof -
        assume lt: "m2 < 1 / 2"
        have "pow2 (- 1022) \<le> pow2 (- 2)" by (intro pow2_mono) simp
        then have a: "pow2 (- 1022) \<le> m2 + m2" using m2_lo by (simp add: pow2_m2)
        have b: "m2 + m2 \<le> 1" using lt by simp
        show ?thesis using round64_unit [OF a b] dbl_r by simp
      qed
      have m'lo: "1 / 2 \<le> m'" using m2_lo by (simp add: m'_def)
      have m'le: "m' \<le> 1" using m2_le by (simp add: m'_def)
      have m'r: "rnd m' = m'" using m2_r dbl_r by (simp add: m'_def)
      have XX: "X * X = (m * m) * pow2 (2 * xe)"
        using Suc.prems pow2_add [of xe xe] by simp
      have X'1: "X' = m2 * pow2 (2 * xe)"
        unfolding X'_def XX m2_def using mm_pos by (rule rnd_scale)
      have "pow2 (2 * xe) = pow2 1 * pow2 (2 * xe - 1)" by (rule pow2_split)
      then have X'eq: "X' = m' * pow2 xe'"
        unfolding X'1 by (simp add: m'_def xe'_def pow2_1)
      have X'ge: "1 \<le> X'" unfolding X'_def using Suc.prems by (intro rnd_ge_1 square_ge_1)
      have half: "i div 2 < 2 ^ k" using Suc.prems(1) by simp
      have k64: "k \<le> 64" using Suc.prems by simp
      have IH: "Ldexp (fst (pow_loop (i div 2) (Finite m') xe' (Finite p') ae'))
                  (snd (pow_loop (i div 2) (Finite m') xe' (Finite p') ae'))
                = clipF (vloop (i div 2) X' A')"
        by (rule Suc.IH [OF half k64 m'lo m'le m'r X'eq X'ge p'lo p'le p'r A'eq A'1 ae'0])
      have acc: "(if odd i then fmul (Finite p) (Finite m) else Finite p) = Finite p'"
        unfolding p'_def fm by simp
      have unfold: "pow_loop i (Finite m) xe (Finite p) ae
                    = pow_loop (i div 2) (Finite m') xe' (Finite p') ae'"
      proof (cases "m2 < 1 / 2")
        case True
        show ?thesis
          unfolding pow_loop_step [OF False nb fsq] acc fdbl [OF True]
          using True by (simp only: m'_def xe'_def ae'_def if_True)
      next
        case ge: False
        show ?thesis
          unfolding pow_loop_step [OF False nb fsq] acc
          using ge by (simp only: m'_def xe'_def ae'_def if_False)
      qed
      have "vloop i X A = vloop (i div 2) X' A'"
        using False by (subst vloop.simps) (simp add: X'_def A'_def)
      then show ?thesis unfolding unfold IH by simp
    qed
  qed
qed

subsection \<open>\<open>math.Pow\<close> for a base above 1\<close>

lemma pow2_neq_0 [simp]: "pow2 e \<noteq> 0"
  by (simp add: pow2_power_int)

lemma rep_ge1:
  assumes "1 \<le> r" and "round64 r = Finite r"
  shows "rnd r = r" and "r < pow2 1024"
proof -
  have "pow2 (- 1022) \<le> pow2 0" by (rule pow2_mono) simp
  then have "pow2 (- 1022) \<le> r" using assms(1) by simp
  from round64_normal [OF this] assms(2) have c: "clipF (rnd r) = Finite r" by simp
  then show "rnd r = r" by (simp add: clipF_def split: if_splits)
  with c show "r < pow2 1024" by (simp add: clipF_def split: if_splits)
qed

lemma Frexp_pos:
  assumes "0 < r"
  shows "1 / 2 \<le> fst (Frexp r)" and "fst (Frexp r) \<le> 1"
    and "r = fst (Frexp r) * pow2 (snd (Frexp r))"
    and "rnd r = r \<Longrightarrow> rnd (fst (Frexp r)) = fst (Frexp r)"
proof -
  let ?e = "ilog2 r + 1"
  have F: "Frexp r = (r / pow2 ?e, ?e)" using assms by (simp add: Frexp_def)
  from ilog2_bounds [OF assms] have a: "pow2 (ilog2 r) \<le> r" and b: "r < pow2 ?e" by simp_all
  have h: "pow2 ?e = 2 * pow2 (ilog2 r)" using pow2_add [of 1 "ilog2 r"] by (simp add: pow2_1 add.commute)
  have "pow2 ?e / 2 \<le> r" using a h by simp
  then show "1 / 2 \<le> fst (Frexp r)" unfolding F by (simp add: pos_le_divide_eq)
  show "fst (Frexp r) \<le> 1" unfolding F using b by (simp add: pos_divide_le_eq)
  show "r = fst (Frexp r) * pow2 (snd (Frexp r))" unfolding F by simp
  have q: "r / pow2 ?e = r * pow2 (- ?e)"
    using pow2_diff [of 0 ?e] by (simp add: field_simps)
  show "rnd r = r \<Longrightarrow> rnd (fst (Frexp r)) = fst (Frexp r)"
    unfolding F fst_conv q by (simp only: rnd_scale [OF assms])
qed

lemma vloop_1: "rnd r = r \<Longrightarrow> vloop 1 r 1 = r"
  by (subst vloop.simps, subst vloop.simps) simp

lemma Pow_value:
  assumes "1 < r" and "round64 r = Finite r"
    and "1 \<le> yi" and "of_int \<lfloor>yi\<rfloor> = yi" and "yi < 2 ^ 63"
  shows "Pow_float (Finite r) (Finite yi) = clipF (vloop \<lfloor>yi\<rfloor> r 1)"
proof -
  have r1: "1 \<le> r" and rpos: "0 < r" using assms(1) by simp_all
  have rr: "rnd r = r" and rlt: "r < pow2 1024" using rep_ge1 [OF r1 assms(2)] by simp_all
  show ?thesis
  proof (cases "yi = 1")
    case True
    then show ?thesis using rr rlt by (simp add: Pow_float_def feq_def vloop_1 clipF_Finite)
  next
    case False
    let ?m = "fst (Frexp r)"
    let ?e = "snd (Frexp r)"
    have i: "\<lfloor>yi\<rfloor> < 2 ^ 63"
    proof -
      have "(of_int \<lfloor>yi\<rfloor> :: rat) < of_int (2 ^ 63)" using assms(4,5) by simp
      then show ?thesis by (simp only: of_int_less_iff)
    qed
    have p: "pow2 (int 63 - 70) \<le> 1" using pow2_mono [of "int 63 - 70" 0] by simp
    have L: "Ldexp (fst (pow_loop \<lfloor>yi\<rfloor> (Finite ?m) ?e (Finite 1) 0))
                   (snd (pow_loop \<lfloor>yi\<rfloor> (Finite ?m) ?e (Finite 1) 0))
             = clipF (vloop \<lfloor>yi\<rfloor> r 1)"
      by (rule pow_loop_value [OF i _ Frexp_pos(1) [OF rpos] Frexp_pos(2) [OF rpos]
            Frexp_pos(4) [OF rpos rr] Frexp_pos(3) [OF rpos] r1 p]) simp_all
    have "Pow_float (Finite r) (Finite yi)
          = Ldexp (fst (pow_loop \<lfloor>yi\<rfloor> (Finite ?m) ?e (Finite 1) 0))
                  (snd (pow_loop \<lfloor>yi\<rfloor> (Finite ?m) ?e (Finite 1) 0))"
      using assms False by (simp add: Pow_float_def feq_def Let_def)
    then show ?thesis by (simp only: L)
  qed
qed

lemma Pow_huge:
  assumes "1 < r" and "2 ^ 63 \<le> yi" and "of_int \<lfloor>yi\<rfloor> = yi"
  shows "Pow_float (Finite r) (Finite yi) = PInf"
  using assms by (simp add: Pow_float_def feq_def)

text \<open>The powers of a factor above \<open>1\<close> grow with the exponent.\<close>

lemma Pow_mono:
  assumes "1 < r" and "round64 r = Finite r"
    and "1 \<le> yi" and "of_int \<lfloor>yi\<rfloor> = yi" and "of_int \<lfloor>yj\<rfloor> = yj" and "yi \<le> yj"
  shows "\<exists>u v. Pow_float (Finite r) (Finite yi) = clipF u \<and> Pow_float (Finite r) (Finite yj) = clipF v
           \<and> 1 \<le> u \<and> u \<le> v"
proof -
  have r1: "1 \<le> r" using assms(1) by simp
  have rr: "rnd r = r" using rep_ge1 [OF r1 assms(2)] by simp
  have yj1: "1 \<le> yj" using assms by linarith
  have fl: "\<lfloor>yi\<rfloor> \<le> \<lfloor>yj\<rfloor>" using assms(6) by (rule floor_mono)
  have f0: "0 \<le> \<lfloor>yi\<rfloor>" using assms(3) by simp
  show ?thesis
  proof (cases "yj < 2 ^ 63")
    case True
    then have yi: "yi < 2 ^ 63" using assms(6) by linarith
    have 1: "Pow_float (Finite r) (Finite yi) = clipF (vloop \<lfloor>yi\<rfloor> r 1)"
      by (rule Pow_value [OF assms(1,2,3,4) yi])
    have 2: "Pow_float (Finite r) (Finite yj) = clipF (vloop \<lfloor>yj\<rfloor> r 1)"
      by (rule Pow_value [OF assms(1,2) yj1 assms(5) True])
    have 3: "1 \<le> vloop \<lfloor>yi\<rfloor> r 1" using r1 by (intro vloop_ge_acc) simp_all
    have 4: "vloop \<lfloor>yi\<rfloor> r 1 \<le> vloop \<lfloor>yj\<rfloor> r 1"
      using f0 fl r1 rr by (intro vloop_mono) simp_all
    show ?thesis using 1 2 3 4 by blast
  next
    case False
    then have big: "2 ^ 63 \<le> yj" by simp
    have 2: "Pow_float (Finite r) (Finite yj) = PInf" by (rule Pow_huge [OF assms(1) big assms(5)])
    show ?thesis
    proof (cases "yi < 2 ^ 63")
      case True
      have 1: "Pow_float (Finite r) (Finite yi) = clipF (vloop \<lfloor>yi\<rfloor> r 1)"
        by (rule Pow_value [OF assms(1,2,3,4) True])
      have 3: "1 \<le> vloop \<lfloor>yi\<rfloor> r 1" using r1 by (intro vloop_ge_acc) simp_all
      have "Pow_float (Finite r) (Finite yj) = clipF (max (vloop \<lfloor>yi\<rfloor> r 1) (pow2 1024))"
        using 2 by (simp add: clipF_def)
      then show ?thesis using 1 3 by (intro exI conjI) (assumption, assumption, assumption, simp)
    next
      case False
      then have "2 ^ 63 \<le> yi" by simp
      then have 1: "Pow_float (Finite r) (Finite yi) = PInf" by (rule Pow_huge [OF assms(1) _ assms(4)])
      have "(1::rat) \<le> pow2 1024" using one_less_pow2_1024 by simp
      then show ?thesis using 1 2 by (intro exI [of _ "pow2 1024"]) (simp add: clipF_def)
    qed
  qed
qed

subsection \<open>Conversions and the bounds\<close>

lemma ilog2_1 [simp]: "ilog2 1 = 0"
  using ilog2_pow2 [of 0] by simp

lemma rnd_of_int_integral:
  assumes "1 \<le> u"
  shows "of_int \<lfloor>rnd (of_int u)\<rfloor> = rnd (of_int u)"
proof -
  let ?x = "of_int u :: rat"
  have x1: "1 \<le> ?x" using assms by simp
  have "ilog2 1 \<le> ilog2 ?x" using x1 by (intro ilog2_mono) simp_all
  then have e0: "0 \<le> ilog2 ?x" by simp
  show ?thesis
  proof (cases "52 \<le> ilog2 ?x")
    case True
    then have "pow2 (ilog2 ?x - 52) = of_int (2 ^ nat (ilog2 ?x - 52))" by (simp add: pow2_nat)
    then have "rnd ?x = of_int (rne (?x / pow2 (ilog2 ?x - 52)) * 2 ^ nat (ilog2 ?x - 52))"
      by (simp add: rnd_def)
    then show ?thesis by (simp only: floor_of_int)
  next
    case False
    define s where "s = nat (52 - ilog2 ?x)"
    have q: "pow2 (ilog2 ?x - 52) = 1 / 2 ^ s" using False by (simp add: pow2_def s_def)
    have d: "?x / (1 / 2 ^ s) = of_int (u * 2 ^ s)" by simp
    have "rnd ?x = ?x" unfolding rnd_def q d rne_of_int by simp
    then show ?thesis by simp
  qed
qed

lemma float64_of_uint_value:
  fixes a :: "'w::len word"
  assumes "a \<noteq> 0" and "LENGTH('w) \<le> 64"
  shows "float64_of_uint a = Finite (rnd (of_int (uint a)))"
    and "1 \<le> rnd (of_int (uint a))"
    and "of_int \<lfloor>rnd (of_int (uint a))\<rfloor> = rnd (of_int (uint a))"
proof -
  define u where "u = uint a"
  define x where "x = (of_int u :: rat)"
  have "u \<noteq> 0" using assms(1) by (simp add: u_def uint_0_iff)
  moreover have "0 \<le> u" unfolding u_def by (rule uint_nonnegative)
  ultimately have u1: "1 \<le> u" by linarith
  then have x1: "1 \<le> x" by (simp add: x_def)
  have "u < 2 ^ LENGTH('w)" unfolding u_def by (rule uint_bounded)
  also have "(2::int) ^ LENGTH('w) \<le> 2 ^ 64" using assms(2) by (intro power_increasing) simp_all
  finally have "u \<le> 2 ^ 64" by simp
  then have "x \<le> of_int (2 ^ 64)" unfolding x_def by (simp only: of_int_le_iff)
  then have x64: "x \<le> pow2 64" by (simp add: pow2_def)
  have xpos: "0 < x" using x1 by linarith
  have "rnd x \<le> rnd (pow2 64)" using xpos x64 by (rule rnd_mono)
  also have "\<dots> < pow2 1024" using pow2_strict_mono [of 64 1024] by simp
  finally have lt: "rnd x < pow2 1024" .
  have "pow2 (- 1022) \<le> pow2 0" by (rule pow2_mono) simp
  then have "pow2 (- 1022) \<le> x" using x1 by simp
  from round64_normal [OF this] lt
  have "round64 x = Finite (rnd x)" by (simp add: clipF_Finite)
  then show "float64_of_uint a = Finite (rnd (of_int (uint a)))"
    unfolding float64_of_uint_def float64_of_int_def x_def u_def .
  show "1 \<le> rnd (of_int (uint a))" using rnd_ge_1 [OF x1] unfolding x_def u_def .
  show "of_int \<lfloor>rnd (of_int (uint a))\<rfloor> = rnd (of_int (uint a))"
    using rnd_of_int_integral [OF u1] unfolding u_def .
qed

lemma float64_of_int64_nonneg:
  assumes "0 \<le>s v"
  shows "float64_of_int64 v = (if v = 0 then Finite 0 else Finite (rnd (of_int (sint v))))"
    and "v \<noteq> 0 \<Longrightarrow> 1 \<le> rnd (of_int (sint v))"
proof -
  define s where "s = sint v"
  define x where "x = (of_int s :: rat)"
  have s0: "0 \<le> s" using assms by (simp add: word_sle_eq s_def)
  have z: "float64_of_int64 0 = Finite 0"
    by (simp add: float64_of_int64_def float64_of_int_def round64_def)
  have nz: "1 \<le> rnd x \<and> round64 x = Finite (rnd x)" if "v \<noteq> 0"
  proof -
    have "s \<noteq> 0" using that by (simp add: s_def signed_eq_0_iff)
    then have "1 \<le> s" using s0 by linarith
    then have x1: "1 \<le> x" by (simp add: x_def)
    have "s < 2 ^ (LENGTH(64) - 1)" unfolding s_def by (rule sint_lt)
    then have "s \<le> 2 ^ 63" by simp
    then have "x \<le> of_int (2 ^ 63)" unfolding x_def by (simp only: of_int_le_iff)
    then have x63: "x \<le> pow2 63" by (simp add: pow2_def)
    have xpos: "0 < x" using x1 by linarith
    have "rnd x \<le> rnd (pow2 63)" using xpos x63 by (rule rnd_mono)
    also have "\<dots> < pow2 1024" using pow2_strict_mono [of 63 1024] by simp
    finally have lt: "rnd x < pow2 1024" .
    have "pow2 (- 1022) \<le> pow2 0" by (rule pow2_mono) simp
    then have "pow2 (- 1022) \<le> x" using x1 by simp
    from round64_normal [OF this] lt
    have "round64 x = Finite (rnd x)" by (simp add: clipF_Finite)
    moreover have "1 \<le> rnd x" using x1 by (rule rnd_ge_1)
    ultimately show ?thesis by simp
  qed
  have e: "float64_of_int64 v = round64 x"
    unfolding float64_of_int64_def float64_of_int_def x_def s_def ..
  have "float64_of_int64 v = (if v = 0 then Finite 0 else Finite (rnd x))"
  proof (cases "v = 0")
    case True
    then show ?thesis using z by simp
  next
    case False
    then show ?thesis using nz e by simp
  qed
  then show "float64_of_int64 v = (if v = 0 then Finite 0 else Finite (rnd (of_int (sint v))))"
    unfolding x_def s_def .
  show "v \<noteq> 0 \<Longrightarrow> 1 \<le> rnd (of_int (sint v))"
    using nz unfolding x_def s_def by simp
qed

lemma clamp_mono: "x \<le>s y \<Longrightarrow> lo \<le>s hi \<Longrightarrow> clamp x lo hi \<le>s clamp y lo hi"
  by (auto simp add: clamp_def word_sle_eq word_sless_alt)

lemma bounded_le_hi: "lo \<le>s hi \<Longrightarrow> bounded cv lo hi f \<le>s hi"
  using clamp_bounds [of lo hi] by (simp add: bounded_def)

lemma bounded_ge_lo: "lo \<le>s hi \<Longrightarrow> lo \<le>s bounded cv lo hi f"
  using clamp_bounds [of lo hi] by (simp add: bounded_def)

lemma bounded_PInf: "bounded cv lo hi PInf = hi"
  by (simp add: bounded_def fgt_def maxInt64_eq)

lemma sint_word_of_int_64:
  "0 \<le> k \<Longrightarrow> k < 2 ^ 63 \<Longrightarrow> sint (word_of_int k :: 64 word) = k"
  by (simp add: signed_of_int signed_take_bit_int_eq_self)

lemma bounded_Finite_mono:
  assumes "lo \<le>s hi" and "0 \<le> x" and "x \<le> y"
  shows "bounded cv lo hi (Finite x) \<le>s bounded cv lo hi (Finite y)"
proof (cases "9223372036854774784 < y")
  case True
  then have "bounded cv lo hi (Finite y) = hi" by (simp add: bounded_def fgt_def maxInt64_eq)
  then show ?thesis using bounded_le_hi [OF assms(1)] by simp
next
  case False
  have y0: "0 \<le> y" using assms by linarith
  have fy: "\<lfloor>y\<rfloor> \<le> 9223372036854774784" using False by (simp add: floor_le_iff)
  have fxy: "\<lfloor>x\<rfloor> \<le> \<lfloor>y\<rfloor>" using assms(3) by (rule floor_mono)
  have fx0: "0 \<le> \<lfloor>x\<rfloor>" using assms(2) by simp
  have tx: "trunc x = \<lfloor>x\<rfloor>" using assms(2) by (simp add: trunc_def)
  have ty: "trunc y = \<lfloor>y\<rfloor>" using y0 by (simp add: trunc_def)
  have p63: "(2::int) ^ 63 = 9223372036854775808" by simp
  have rx: "- (2 ^ 63) \<le> \<lfloor>x\<rfloor> \<and> \<lfloor>x\<rfloor> < 2 ^ 63"
    unfolding p63 using fx0 fxy fy by linarith
  have ry: "- (2 ^ 63) \<le> \<lfloor>y\<rfloor> \<and> \<lfloor>y\<rfloor> < 2 ^ 63"
    unfolding p63 using fx0 fxy fy by linarith
  have cx: "int64_of_float64 cv (Finite x) = word_of_int \<lfloor>x\<rfloor>"
    unfolding int64_of_float64_def float64.case tx using rx by (simp only: if_True simp_thms)
  have cy: "int64_of_float64 cv (Finite y) = word_of_int \<lfloor>y\<rfloor>"
    unfolding int64_of_float64_def float64.case ty using ry by (simp only: if_True simp_thms)
  have fy0: "0 \<le> \<lfloor>y\<rfloor>" using fx0 fxy by linarith
  have "sint (word_of_int \<lfloor>x\<rfloor> :: 64 word) = \<lfloor>x\<rfloor>"
    by (rule sint_word_of_int_64 [OF fx0 conjunct2 [OF rx]])
  moreover have "sint (word_of_int \<lfloor>y\<rfloor> :: 64 word) = \<lfloor>y\<rfloor>"
    by (rule sint_word_of_int_64 [OF fy0 conjunct2 [OF ry]])
  ultimately have "(word_of_int \<lfloor>x\<rfloor> :: 64 word) \<le>s word_of_int \<lfloor>y\<rfloor>"
    using fxy by (simp add: word_sle_eq)
  then have "clamp (word_of_int \<lfloor>x\<rfloor>) lo hi \<le>s clamp (word_of_int \<lfloor>y\<rfloor>) lo hi"
    using assms(1) by (rule clamp_mono)
  then show ?thesis using False assms(3) by (simp add: bounded_def fgt_def maxInt64_eq cx cy)
qed

lemma word_sle_refl: "(x :: 'a::len word) \<le>s x"
  by (simp add: word_sle_eq)

text \<open>The delay grows with the power, for a lower bound that is not negative.\<close>

lemma delay_mono_in_power:
  assumes "lo \<le>s hi" and "0 \<le>s lo" and "1 \<le> u" and "u \<le> v"
  shows "bounded cv lo hi (fmul (float64_of_int64 lo) (clipF u))
         \<le>s bounded cv lo hi (fmul (float64_of_int64 lo) (clipF v))"
proof (cases "lo = 0")
  case True
  have f: "float64_of_int64 lo = Finite 0" using float64_of_int64_nonneg(1) [OF assms(2)] True by simp
  show ?thesis
  proof (cases "pow2 1024 \<le> u")
    case big: True
    then have "pow2 1024 \<le> v" using assms(4) by linarith
    then show ?thesis using big by (simp add: clipF_def word_sle_refl)
  next
    case False
    then have "fmul (float64_of_int64 lo) (clipF u) = Finite 0"
      by (simp add: f clipF_def round64_def)
    moreover have "bounded cv lo hi (Finite 0) = lo"
      using True assms(1)
      by (simp add: bounded_def fgt_def maxInt64_eq int64_of_float64_def trunc_def clamp_def
          word_sless_alt word_sle_eq)
    ultimately show ?thesis using bounded_ge_lo [OF assms(1)] by simp
  qed
next
  case False
  define q where "q = rnd (of_int (sint lo))"
  have f: "float64_of_int64 lo = Finite q"
    using float64_of_int64_nonneg(1) [OF assms(2)] False by (simp add: q_def)
  have q1: "1 \<le> q" using float64_of_int64_nonneg(2) [OF assms(2) False] by (simp add: q_def)
  have qpos: "0 < q" using q1 by linarith
  show ?thesis
  proof (cases "pow2 1024 \<le> v")
    case True
    then have "fmul (float64_of_int64 lo) (clipF v) = PInf" using qpos by (simp add: f clipF_def)
    then show ?thesis using bounded_le_hi [OF assms(1)] by (simp add: bounded_PInf)
  next
    case vfin: False
    then have ufin: "\<not> pow2 1024 \<le> u" using assms(4) by linarith
    have qu1: "1 \<le> q * u" using q1 assms(3) mult_mono [of 1 q 1 u] by simp
    have quv: "q * u \<le> q * v" using qpos assms(4) by simp
    have qv1: "1 \<le> q * v" using qu1 quv by linarith
    have n: "pow2 (- 1022) \<le> 1" using pow2_mono [of "- 1022" 0] by simp
    have ru: "fmul (float64_of_int64 lo) (clipF u) = clipF (rnd (q * u))"
      using round64_normal [of "q * u"] n qu1 ufin by (simp add: f clipF_def)
    have rv: "fmul (float64_of_int64 lo) (clipF v) = clipF (rnd (q * v))"
      using round64_normal [of "q * v"] n qv1 vfin by (simp add: f clipF_def)
    have le: "rnd (q * u) \<le> rnd (q * v)" using qu1 quv by (intro rnd_mono) simp_all
    have r0: "0 \<le> rnd (q * u)" using rnd_ge_1 [OF qu1] by linarith
    show ?thesis
    proof (cases "pow2 1024 \<le> rnd (q * v)")
      case True
      then show ?thesis unfolding ru rv
        using bounded_le_hi [OF assms(1)] by (simp add: clipF_def bounded_PInf)
    next
      case False
      then have "\<not> pow2 1024 \<le> rnd (q * u)" using le by linarith
      then show ?thesis unfolding ru rv
        using False bounded_Finite_mono [OF assms(1) r0 le] by (simp add: clipF_def)
    qed
  qed
qed

lemma duration_bounded:
  "attempt \<noteq> 0 \<Longrightarrow>
   duration cv b attempt
     = bounded cv (Min_dur b) (Max_dur b)
         (fmul (float64_of_int64 (Min_dur b)) (Pow_float (Factor b) (float64_of_uint attempt)))"
  by (simp add: duration_eq_clamp bounded_def)

lemma Pow_PInf:
  "1 \<le> y \<Longrightarrow> of_int \<lfloor>y\<rfloor> = y \<Longrightarrow> Pow_float PInf (Finite y) = PInf"
  by (simp add: Pow_float_def feq_def)


subsection \<open>The package's example, evaluated\<close>

text \<open>
  With \<open>New(3, 2, 1s, 5s)\<close> the delay of attempt \<open>1\<close> is \<open>2s\<close> and that of attempt
  \<open>2\<close> is \<open>4s\<close>.
\<close>

lemma rnd_4: "rnd 4 = 4"
  using rep_ge1(1) [of 4] round64_of_int_exact [of 4] by simp

lemma vloop_2: "vloop 2 2 1 = 4"
  by (subst vloop.simps, subst vloop.simps, subst vloop.simps) (simp add: rnd_4)

lemma Pow_2_2: "Pow_float (Finite 2) (Finite 2) = Finite 4"
proof -
  have "round64 2 = Finite 2" using round64_of_int_exact [of 2] by simp
  then have "Pow_float (Finite 2) (Finite 2) = clipF (vloop \<lfloor>2::rat\<rfloor> 2 1)"
    by (intro Pow_value) simp_all
  moreover have "(4::rat) < pow2 1024" using pow2_strict_mono [of 2 1024] by (simp add: pow2_def)
  ultimately show ?thesis by (simp add: vloop_2 clipF_Finite)
qed

lemma duration_example_1: "duration amd64 example_backoff 1 = 2000000000"
  using round64_of_int_exact [of 1000000000] round64_of_int_exact [of 2000000000]
  by (simp add: example_backoff_def duration_def New_def float64_of_uint_1 Pow_1
      float64_of_int64_def float64_of_int_def maxInt64_eq fgt_def int64_of_float64_def
      trunc_def Let_def word_sless_alt)

lemma duration_example_2: "duration amd64 example_backoff 2 = 4000000000"
  using round64_of_int_exact [of 2] round64_of_int_exact [of 1000000000]
    round64_of_int_exact [of 4000000000]
  by (simp add: example_backoff_def duration_def New_def float64_of_uint_def Pow_2_2
      float64_of_int64_def float64_of_int_def maxInt64_eq fgt_def int64_of_float64_def
      trunc_def Let_def word_sless_alt)

section \<open>The claims\<close>

text \<open>
  C1: for every configuration and every value of the attempt counter, \<open>Duration()\<close> is
  \<open>0\<close> when the counter is \<open>0\<close>; otherwise the float product
  \<open>min * factor^n\<close> is first compared with the overflow margin \<open>maxInt64\<close>, and the
  result is \<open>max\<close> if the product exceeds it; otherwise the product, converted to an
  integer duration, is raised to \<open>min\<close> if below it and lowered to \<open>max\<close> if above
  it. That is: the code's \<open>Duration\<close> is the function \<open>spec_Duration\<close> written from the
  specification's words.
\<close>

theorem C1_Duration_is_clamped_product: "Duration cv b = spec_Duration cv b"
  by (simp add: Duration_def spec_Duration_def duration_eq_clamp)

text \<open>
  C2, as the specification states it, fails where \<open>min > max\<close>: with \<open>min = 3s\<close>,
  \<open>max = 500ms\<close> and factor \<open>2\<close> (all non-negative), the duration of attempt \<open>1\<close> is
  \<open>500ms\<close>, below \<open>min\<close>.
\<close>

theorem C2_min_above_max_counterexample:
  "0 \<le>s Min_dur test_exceed_Max_backoff \<and> 0 \<le>s Max_dur test_exceed_Max_backoff
   \<and> flt (Finite 0) (Factor test_exceed_Max_backoff)
   \<and> duration amd64 test_exceed_Max_backoff 1 = 500000000
   \<and> \<not> (Min_dur test_exceed_Max_backoff \<le>s duration amd64 test_exceed_Max_backoff 1)"
  using round64_of_int_exact [of 3000000000] round64_of_int_exact [of 6000000000]
  by (simp add: test_exceed_Max_backoff_def duration_def New_def float64_of_uint_1 Pow_1
      float64_of_int64_def float64_of_int_def maxInt64_eq fgt_def int64_of_float64_def
      trunc_def Let_def word_sless_alt word_sle_eq)

text \<open>
  C2, amended: for every configuration with \<open>min \<le> max\<close> (whatever the factor and
  whatever the platform's conversion of unrepresentable values) and every attempt other
  than \<open>0\<close>, \<open>min \<le> duration(attempt) \<le> max\<close>.
\<close>

theorem C2_duration_within_bounds:
  "Min_dur b \<le>s Max_dur b \<Longrightarrow> attempt \<noteq> 0 \<Longrightarrow>
   Min_dur b \<le>s duration cv b attempt \<and> duration cv b attempt \<le>s Max_dur b"
  using clamp_bounds [of "Min_dur b" "Max_dur b"]
  by (simp add: duration_eq_clamp)

theorem C2_duration_within_bounds_witness:
  "Min_dur example_backoff \<le>s Max_dur example_backoff \<and> (2 :: 64 word) \<noteq> 0
   \<and> 1000000000 \<le>s duration amd64 example_backoff 2
   \<and> duration amd64 example_backoff 2 \<le>s 5000000000"
  using C2_duration_within_bounds [of example_backoff 2 amd64]
  by (simp add: example_backoff_def New_def word_sle_eq)

text \<open>
  C3: for every limit \<open>N > 0\<close> and a controller freshly made by \<open>New\<close> with that limit,
  the loop that calls \<open>Next\<close> until it returns false, in worlds where the context is
  never cancelled and the timer always fires, ends after exactly \<open>N\<close> true returns
  followed by one false return, and \<open>Attempt()\<close> is \<open>N\<close> afterwards.
\<close>

theorem C3_loop_makes_MaxAttempts_attempts:
  fixes N :: "'w::len word"
  assumes "N \<noteq> 0" and "\<forall>k. \<not> cancelled (ws k) \<and> chosen (ws k) = Timer_C"
  shows "map_option (\<lambda>r. (fst r, Attempt (snd r))) (drive cv ws 0 (New N f mn mx))
         = Some (unat N, N)"
  using drive_counts [of ws "New N f mn mx" "unat N" cv 0] assms
  by (auto simp add: New_def Attempt_def)

theorem C3_loop_makes_MaxAttempts_attempts_witness:
  "(3 :: 64 word) \<noteq> 0
   \<and> (\<forall>k. \<not> cancelled quiet \<and> chosen quiet = Timer_C)
   \<and> map_option (\<lambda>r. (fst r, Attempt (snd r))) (drive amd64 (\<lambda>k. quiet) 0 example_backoff)
       = Some (3, 3)"
  using C3_loop_makes_MaxAttempts_attempts
    [of "3 :: 64 word" "\<lambda>k. quiet" amd64 "Finite 2" 1000000000 5000000000]
  by (simp add: quiet_def example_backoff_def)

text \<open>
  C4: for every controller with \<open>MaxAttempts \<noteq> 0\<close> whose counter has reached
  \<open>MaxAttempts\<close>, \<open>Next\<close> returns false at once and changes nothing: the state is the
  same (the counter is not incremented), and \<open>Next\<close> touches neither the context nor
  the timer (no timer is started, nothing blocks).
\<close>

theorem C4_Next_exhausted:
  "MaxAttempts b \<noteq> 0 \<Longrightarrow> MaxAttempts b \<le> n b \<Longrightarrow> Next cv w b = (False, b, [])"
  by (simp add: Next_def)

theorem C4_Next_exhausted_witness:
  "MaxAttempts (example_backoff\<lparr>n := 3\<rparr>) \<noteq> 0
   \<and> MaxAttempts (example_backoff\<lparr>n := 3\<rparr>) \<le> n (example_backoff\<lparr>n := 3\<rparr>)
   \<and> Next amd64 quiet (example_backoff\<lparr>n := 3\<rparr>) = (False, example_backoff\<lparr>n := 3\<rparr>, [])"
  using C4_Next_exhausted [of "example_backoff\<lparr>n := 3\<rparr>" amd64 quiet]
  by (simp add: example_backoff_def New_def)

text \<open>
  C5: for every controller that is not at its \<open>MaxAttempts\<close> limit, a call to \<open>Next\<close>
  increments the counter by exactly \<open>1\<close> (as a Go \<open>uint\<close>), in every world: whether
  \<open>Next\<close> returns true, or false because the context was cancelled. The state after a
  cancelled call keeps the increment.
\<close>

theorem C5_Next_increments:
  "\<not> (MaxAttempts b \<noteq> 0 \<and> MaxAttempts b \<le> n b) \<Longrightarrow>
   n (fst (snd (Next cv w b))) = n b + 1"
  by (rule Next_n_step)

theorem C5_Next_increments_witness:
  "\<not> (MaxAttempts example_backoff \<noteq> 0 \<and> MaxAttempts example_backoff \<le> n example_backoff)
   \<and> fst (Next amd64 cancelled_world example_backoff) = False
   \<and> n (fst (snd (Next amd64 cancelled_world example_backoff))) = 1"
  using C5_Next_increments [of example_backoff amd64 cancelled_world]
  by (simp add: example_backoff_def New_def Next_def Duration_def duration_def
      cancelled_world_def)

text \<open>
  C6: for every controller that is not at its limit and whose duration for the current
  attempt is \<open>0\<close>, \<open>Next\<close> polls the cancellation signal once, without blocking and
  without starting the timer (the timer is as it was), and returns false if the signal
  is already cancelled and true otherwise.
\<close>

theorem C6_Next_zero_duration:
  "\<not> (MaxAttempts b \<noteq> 0 \<and> MaxAttempts b \<le> n b) \<Longrightarrow> Duration cv b = 0 \<Longrightarrow>
   Next cv w b = (\<not> cancelled w, b\<lparr>n := n b + 1\<rparr>, [Poll_Done])"
  by (auto simp add: Next_def Let_def)

theorem C6_Next_zero_duration_witness:
  "\<not> (MaxAttempts example_backoff \<noteq> 0 \<and> MaxAttempts example_backoff \<le> n example_backoff)
   \<and> Duration amd64 example_backoff = 0
   \<and> Next amd64 cancelled_world example_backoff
       = (False, example_backoff\<lparr>n := 1\<rparr>, [Poll_Done])
   \<and> Next amd64 quiet example_backoff = (True, example_backoff\<lparr>n := 1\<rparr>, [Poll_Done])"
  using C6_Next_zero_duration [of example_backoff amd64 cancelled_world]
    C6_Next_zero_duration [of example_backoff amd64 quiet]
  by (simp add: example_backoff_def New_def Duration_def duration_def cancelled_world_def
      quiet_def)

text \<open>
  C7: for every configuration with a factor above \<open>1\<close> (a \<open>float64\<close> value, finite
  or \<open>+Inf\<close>) and \<open>0 \<le> min \<le> max\<close>, on a platform whose \<open>uint\<close> has at most 64
  bits, the delay does not decrease with the attempt: for all attempts \<open>a\<close> and \<open>c\<close>
  with \<open>1 \<le> a \<le> c\<close>, \<open>duration(a) \<le> duration(c)\<close>. The proof follows
  \<open>math.Pow\<close> through its rounded multiplications.
\<close>

theorem C7_duration_non_decreasing:
  fixes b :: "'w::len word Backoff"
  assumes "LENGTH('w) \<le> 64" and "is_float64 (Factor b)" and "flt (Finite 1) (Factor b)"
    and "Min_dur b \<le>s Max_dur b" and "0 \<le>s Min_dur b" and "a \<noteq> 0" and "a \<le> c"
  shows "duration cv b a \<le>s duration cv b c"
proof -
  have c0: "c \<noteq> 0" using assms(6,7) by (metis word_le_0_iff)
  let ?ya = "rnd (of_int (uint a))"
  let ?yc = "rnd (of_int (uint c))"
  note fa = float64_of_uint_value [OF assms(6) assms(1)]
  note fc = float64_of_uint_value [OF c0 assms(1)]
  have "uint a \<le> uint c" using assms(7) by (simp add: word_le_def)
  then have le: "(of_int (uint a) :: rat) \<le> of_int (uint c)" by (simp only: of_int_le_iff)
  have "uint a \<noteq> 0" using assms(6) by (simp add: uint_0_iff)
  then have "0 < uint a" using uint_nonnegative [of a] by linarith
  then have "(0::rat) < of_int (uint a)" by (simp only: of_int_0_less_iff)
  then have yac: "?ya \<le> ?yc" using le by (rule rnd_mono)
  show ?thesis
  proof (cases "Factor b")
    case (Finite r)
    then have r: "1 < r" "round64 r = Finite r" using assms(2,3) by (simp_all add: is_float64_def)
    from Pow_mono [OF r fa(2) fa(3) fc(3) yac]
    obtain u v where "Pow_float (Finite r) (Finite ?ya) = clipF u"
      and "Pow_float (Finite r) (Finite ?yc) = clipF v" and "1 \<le> u" and "u \<le> v" by blast
    then show ?thesis
      unfolding duration_bounded [OF assms(6)] duration_bounded [OF c0] Finite fa(1) fc(1)
      using delay_mono_in_power [OF assms(4,5)] by simp
  next
    case PInf
    have "Pow_float PInf (Finite ?ya) = PInf" using fa by (intro Pow_PInf)
    moreover have "Pow_float PInf (Finite ?yc) = PInf" using fc by (intro Pow_PInf)
    ultimately show ?thesis
      unfolding duration_bounded [OF assms(6)] duration_bounded [OF c0] PInf fa(1) fc(1)
      by (simp add: word_sle_refl)
  next
    case NInf
    then show ?thesis using assms(3) by simp
  next
    case NaN
    then show ?thesis using assms(3) by simp
  qed
qed

theorem C7_duration_non_decreasing_witness:
  "LENGTH(64) \<le> 64 \<and> is_float64 (Factor example_backoff)
   \<and> flt (Finite 1) (Factor example_backoff)
   \<and> Min_dur example_backoff \<le>s Max_dur example_backoff \<and> 0 \<le>s Min_dur example_backoff
   \<and> (1 :: 64 word) \<noteq> 0 \<and> (1 :: 64 word) \<le> 2
   \<and> duration amd64 example_backoff 1 \<le>s duration amd64 example_backoff 2
   \<and> duration amd64 example_backoff 1 = 2000000000
   \<and> duration amd64 example_backoff 2 = 4000000000"
proof -
  have f: "is_float64 (Factor example_backoff)"
    using round64_of_int_exact [of 2] by (simp add: is_float64_def example_backoff_def New_def)
  have g: "flt (Finite 1) (Factor example_backoff)"
    by (simp add: example_backoff_def New_def)
  have m: "Min_dur example_backoff \<le>s Max_dur example_backoff"
    by (simp add: example_backoff_def New_def word_sle_eq)
  have z: "0 \<le>s Min_dur example_backoff"
    by (simp add: example_backoff_def New_def word_sle_eq)
  have l: "LENGTH(64) \<le> 64" by simp
  have a: "(1 :: 64 word) \<noteq> 0" by simp
  have c: "(1 :: 64 word) \<le> 2" by simp
  from C7_duration_non_decreasing [OF l f g m z a c, of amd64] f g m z
  show ?thesis by (simp add: duration_example_1 duration_example_2)
qed

text \<open>
  C8, as the specification states it, fails: with \<open>min = 500ms\<close>, \<open>max = 3s\<close> and
  factor \<open>2\<close>, the configuration of the test "Duration", the delay of attempt \<open>1\<close> is
  \<open>1s\<close>, which is \<open>factor * min\<close> as that test expects, not \<open>min\<close>.
\<close>

theorem C8_first_retry_counterexample:
  "duration amd64 test_Duration_backoff 1 = 1000000000
   \<and> duration amd64 test_Duration_backoff 1 \<noteq> Min_dur test_Duration_backoff"
  using round64_of_int_exact [of 500000000] round64_of_int_exact [of 1000000000]
  by (simp add: test_Duration_backoff_def duration_def New_def float64_of_uint_1 Pow_1
      float64_of_int64_def float64_of_int_def maxInt64_eq fgt_def int64_of_float64_def
      trunc_def Let_def word_sless_alt)

text \<open>
  C8, amended: for every configuration, the delay used on the first retry (attempt
  \<open>1\<close>) is the product \<open>min * factor\<close>, one \<open>float64\<close> multiplication, bounded as
  every delay is: \<open>max\<close> if the product exceeds the overflow margin, otherwise the
  product converted to an integer duration, raised to \<open>min\<close> if below it and lowered to
  \<open>max\<close> if above it.
\<close>

theorem C8_first_retry_is_min_times_factor:
  "duration cv b 1 =
     (if fgt (fmul (float64_of_int64 (Min_dur b)) (Factor b)) maxInt64 then Max_dur b
      else clamp (int64_of_float64 cv (fmul (float64_of_int64 (Min_dur b)) (Factor b)))
             (Min_dur b) (Max_dur b))"
  by (simp add: duration_eq_clamp float64_of_uint_1 Pow_1)

text \<open>
  C9, as the specification states it, fails: \<open>Stop\<close> on a real timer on which
  \<open>Start\<close> has never been called returns true, not false.
\<close>

theorem C9_Stop_never_started_counterexample:
  "\<not> (fst (Stop NewRealTimer) = False)"
  by (simp add: Stop_def NewRealTimer_def)

text \<open>
  C9, amended: \<open>Stop\<close> on the real timer returns true exactly when the timer was
  never started or when the call prevented a pending fire; it returns false when the
  timer had already expired or had already been stopped. Afterwards a started timer is
  no longer pending, and a timer that was never started is left as it was.
\<close>

theorem C9_Stop_result:
  "fst (Stop t) = (timer t = None \<or> (\<exists>d. timer t = Some (Pending d)))
   \<and> (fst (Stop t) = False) = (timer t = Some Expired \<or> timer t = Some Stopped)
   \<and> (timer t = None \<longrightarrow> snd (Stop t) = t)
   \<and> (\<forall>d. timer (snd (Stop t)) \<noteq> Some (Pending d))"
proof (cases "timer t")
  case None
  then show ?thesis by (simp add: Stop_def)
next
  case (Some tm)
  then show ?thesis by (cases tm) (simp_all add: Stop_def)
qed

theorem C9_Stop_result_witness:
  "timer NewRealTimer = None \<and> snd (Stop NewRealTimer) = NewRealTimer
   \<and> fst (Stop (Start NewRealTimer 5)) = True
   \<and> fst (Stop (snd (Stop (Start NewRealTimer 5)))) = False"
  using C9_Stop_result [of NewRealTimer] C9_Stop_result [of "Start NewRealTimer 5"]
    C9_Stop_result [of "snd (Stop (Start NewRealTimer 5))"]
  by (simp add: NewRealTimer_def Start_def Stop_def NewTimer_def)

text \<open>
  C10: for every controller made by \<open>New\<close> with \<open>MaxAttempts \<noteq> 0\<close>, the invariant
  \<open>n \<le> MaxAttempts\<close> holds at construction (where \<open>n = 0\<close>) and after any sequence
  of \<open>Next\<close> and \<open>Reset\<close> calls: \<open>Next\<close> never takes the counter past the limit.
  (\<open>Attempt\<close> and \<open>Duration\<close> only read the state.)
\<close>

theorem C10_attempt_le_MaxAttempts:
  fixes b :: "'w::len word Backoff"
  assumes "reachable cv b" and "MaxAttempts b \<noteq> 0"
  shows "n b \<le> MaxAttempts b"
  using assms
proof (induction rule: reachable.induct)
  case (reach_New maxAttempts factor mn mx)
  then show ?case by (simp add: New_def)
next
  case (reach_Next b w)
  then have ma: "MaxAttempts b \<noteq> 0" and le: "n b \<le> MaxAttempts b"
    by (simp_all add: Next_MaxAttempts)
  show ?case
  proof (cases "MaxAttempts b \<le> n b")
    case True
    then show ?thesis using ma le by (simp add: Next_n_exhausted Next_MaxAttempts)
  next
    case False
    then have "n b < MaxAttempts b" by simp
    then have "n b + 1 \<le> MaxAttempts b" by (rule inc_le)
    then show ?thesis using False by (simp add: Next_n_step Next_MaxAttempts)
  qed
next
  case (reach_Reset b)
  then show ?case by (simp add: Reset_def)
qed

theorem C10_attempt_le_MaxAttempts_witness:
  "reachable amd64 (fst (snd (Next amd64 quiet example_backoff)))
   \<and> MaxAttempts (fst (snd (Next amd64 quiet example_backoff))) \<noteq> 0
   \<and> n (fst (snd (Next amd64 quiet example_backoff)))
       \<le> MaxAttempts (fst (snd (Next amd64 quiet example_backoff)))"
proof -
  have r: "reachable amd64 (fst (snd (Next amd64 quiet example_backoff)))"
    unfolding example_backoff_def by (rule reach_Next) (rule reach_New)
  have m: "MaxAttempts (fst (snd (Next amd64 quiet example_backoff))) \<noteq> 0"
    by (simp add: Next_MaxAttempts example_backoff_def New_def)
  from r m C10_attempt_le_MaxAttempts [OF r m] show ?thesis by simp
qed


end
